theory Spec2Isabelle
  imports Main "HOL-Library.While_Combinator"
begin

section \<open>The minefield of MinefieldWindow.cpp\<close>

text \<open>
  A shallow embedding of \<^verbatim>\<open>src/Minesweeper/MinefieldWindow.cpp\<close>. The class
  \<^verbatim>\<open>MinefieldWindow\<close> becomes a record of its data members, every method a function
  from the record to the updated record. Calls into the parent window
  (\<^verbatim>\<open>m_pGameWindow\<close>: flag counter, timer, smile) and into the scene
  (\<^verbatim>\<open>m_scene\<close>: layout, render) write nothing that the minefield reads back and are
  left out.
\<close>

subsection \<open>UINT and INT\<close>

text \<open>
  \<^verbatim>\<open>UINT\<close> is an unsigned 32-bit integer. It is modelled as a \<open>nat\<close> with the
  wrap-around written at every arithmetic operation of the source.
\<close>

definition u32 :: "nat \<Rightarrow> nat" where
  "u32 n = n mod 4294967296"

text \<open>
  \<^verbatim>\<open>y + yOffset\<close> with \<^verbatim>\<open>UINT y\<close> and \<^verbatim>\<open>INT yOffset\<close>: the usual arithmetic
  conversions turn the offset into a \<^verbatim>\<open>UINT\<close>, so the sum is taken modulo \<open>2^32\<close> and
  \<open>0 + (-1)\<close> is \<open>4294967295\<close>.
\<close>

definition u32_add_int :: "nat \<Rightarrow> int \<Rightarrow> nat" where
  "u32_add_int n k = nat ((int n + k) mod 4294967296)"

text \<open>\<^verbatim>\<open>a - b\<close> on \<^verbatim>\<open>UINT\<close>.\<close>

definition u32_sub :: "nat \<Rightarrow> nat \<Rightarrow> nat" where
  "u32_sub a b = nat ((int a - int b) mod 4294967296)"

subsection \<open>Tiles\<close>

datatype TileContent = EMPTY | ONE | TWO | THREE | FOUR | FIVE | SIX | SEVEN | EIGHT | MINE

datatype TileState = HIDDEN | CLICKED | REVEALED

datatype TileMark = NONE | FLAG | QUESTION_MARK

record MineTile =
  tileContent :: TileContent
  tileState :: TileState
  tileMark :: TileMark

text \<open>
  Modelled from the spec: the class \<^verbatim>\<open>MineTile\<close> and the enumerations of
  \<^verbatim>\<open>enums.h\<close> are not among the sources. A tile holds a content, a state and a mark,
  read by \<^verbatim>\<open>GetTileContent\<close>, \<^verbatim>\<open>GetTileState\<close>, \<^verbatim>\<open>GetTileMark\<close> and written
  by the matching setters; the default tile \<^verbatim>\<open>MineTile()\<close> of a fresh field is an
  empty, hidden, unmarked one.
\<close>

definition MineTile_default :: MineTile where
  "MineTile_default = \<lparr>tileContent = EMPTY, tileState = HIDDEN, tileMark = NONE\<rparr>"

subsection \<open>The window's data members\<close>

record MinefieldWindow =
  m_width :: nat
  m_height :: nat
  m_cTiles :: nat
  m_cMines :: nat
  m_cRevealedTiles :: nat
  m_cFlaggedTiles :: nat
  m_bMouseTracking :: bool
  m_bGameLost :: bool
  m_bQuestionMarksEnabled :: bool
  m_bChording :: bool
  m_bLRHeldAfterChord :: bool
  m_lastGridPos :: "nat \<times> nat"
  m_aMineTiles :: "MineTile list"

text \<open>
  The constructor. \<^verbatim>\<open>m_bChording\<close>, \<^verbatim>\<open>m_bLRHeldAfterChord\<close> and
  \<^verbatim>\<open>m_lastGridPos\<close> are not in its initialiser list (the header that may
  initialise them is not among the sources), so their first values are arguments.
\<close>

definition MinefieldWindow_ctor ::
  "nat \<Rightarrow> nat \<Rightarrow> nat \<Rightarrow> bool \<Rightarrow> bool \<Rightarrow> nat \<times> nat \<Rightarrow> MinefieldWindow" where
  "MinefieldWindow_ctor width height cMines chording held lastPos =
     (let cTiles = u32 (width * height)
      in \<lparr>m_width = width, m_height = height, m_cTiles = cTiles,
          m_cMines = (if cMines > cTiles then cTiles else cMines),
          m_cRevealedTiles = 0, m_cFlaggedTiles = 0,
          m_bMouseTracking = False, m_bGameLost = False,
          m_bQuestionMarksEnabled = False,
          m_bChording = chording, m_bLRHeldAfterChord = held,
          m_lastGridPos = lastPos,
          m_aMineTiles = replicate cTiles MineTile_default\<rparr>)"

definition IsGameLost :: "MinefieldWindow \<Rightarrow> bool" where
  "IsGameLost s = m_bGameLost s"

definition IsGameWon :: "MinefieldWindow \<Rightarrow> bool" where
  "IsGameWon s =
     (\<not> m_bGameLost s \<and>
      (m_cTiles s \<le> u32 (m_cMines s + m_cRevealedTiles s) \<and> m_cRevealedTiles s > 0))"

definition IsGameActive :: "MinefieldWindow \<Rightarrow> bool" where
  "IsGameActive s = (\<not> (IsGameLost s \<or> IsGameWon s))"

definition ResetGame :: "MinefieldWindow \<Rightarrow> MinefieldWindow" where
  "ResetGame s =
     s\<lparr>m_bGameLost := False, m_cRevealedTiles := 0, m_cFlaggedTiles := 0,
       m_aMineTiles := replicate (m_cTiles s) MineTile_default\<rparr>"

text \<open>\<^verbatim>\<open>Resize\<close> returns the new window and the \<^verbatim>\<open>BOOL\<close> it reports.\<close>

definition Resize :: "nat \<Rightarrow> nat \<Rightarrow> nat \<Rightarrow> MinefieldWindow \<Rightarrow> MinefieldWindow \<times> bool" where
  "Resize width height cMines s =
     (if m_width s \<noteq> width \<or> m_height s \<noteq> height \<or> m_cMines s \<noteq> cMines then
        (let cTiles = u32 (width * height);
             s1 = s\<lparr>m_width := width, m_height := height, m_cTiles := cTiles,
                    m_cMines := (if cMines > cTiles then cTiles else cMines)\<rparr>
         in (ResetGame s1, True))
      else (s, False))"

text \<open>
  \<^verbatim>\<open>operator()(index)\<close> is \<^verbatim>\<open>m_aMineTiles[index]\<close>, and \<^verbatim>\<open>operator()(x, y)\<close>
  computes the index \<^verbatim>\<open>x + size_t(y) * m_width\<close> in \<^verbatim>\<open>size_t\<close>, where two 32-bit
  factors cannot wrap. An index beyond the vector is undefined behaviour in C++;
  \<open>grid_index_in_range\<close> below shows that no index made by \<^verbatim>\<open>GetTileGrid\<close> is one
  on a well-formed field.
\<close>

definition tile_at :: "MinefieldWindow \<Rightarrow> nat \<Rightarrow> MineTile" where
  "tile_at s index = m_aMineTiles s ! index"

definition tile_xy :: "MinefieldWindow \<Rightarrow> nat \<Rightarrow> nat \<Rightarrow> MineTile" where
  "tile_xy s x y = tile_at s (x + y * m_width s)"

definition set_tile :: "nat \<Rightarrow> MineTile \<Rightarrow> MinefieldWindow \<Rightarrow> MinefieldWindow" where
  "set_tile index t s = s\<lparr>m_aMineTiles := (m_aMineTiles s)[index := t]\<rparr>"

definition SetTileState :: "nat \<Rightarrow> TileState \<Rightarrow> MinefieldWindow \<Rightarrow> MinefieldWindow" where
  "SetTileState index st s = set_tile index ((tile_at s index)\<lparr>tileState := st\<rparr>) s"

definition SetTileMark :: "nat \<Rightarrow> TileMark \<Rightarrow> MinefieldWindow \<Rightarrow> MinefieldWindow" where
  "SetTileMark index mk s = set_tile index ((tile_at s index)\<lparr>tileMark := mk\<rparr>) s"

definition SetTileContent :: "nat \<Rightarrow> TileContent \<Rightarrow> MinefieldWindow \<Rightarrow> MinefieldWindow" where
  "SetTileContent index c s = set_tile index ((tile_at s index)\<lparr>tileContent := c\<rparr>) s"

subsection \<open>Grid geometry\<close>

text \<open>
  \<^verbatim>\<open>GetTileGrid(x, y, radius)\<close>: the two nested loops over \<^verbatim>\<open>yOffset\<close> and
  \<^verbatim>\<open>xOffset\<close> from \<^verbatim>\<open>-radius\<close> to \<^verbatim>\<open>radius\<close>. The tests \<^verbatim>\<open>0 <= y + yOffset\<close> and
  \<^verbatim>\<open>0 <= x + xOffset\<close> compare a \<^verbatim>\<open>UINT\<close> and are always true; the clipping at the
  low edge is done by the wrapped sum failing the upper test.
\<close>

definition GetTileGrid :: "MinefieldWindow \<Rightarrow> nat \<Rightarrow> nat \<Rightarrow> int \<Rightarrow> nat list" where
  "GetTileGrid s x y radius =
     (if radius < 0 then []
      else concat (map (\<lambda>yOffset.
             if 0 \<le> u32_add_int y yOffset \<and> u32_add_int y yOffset < m_height s then
               concat (map (\<lambda>xOffset.
                 if 0 \<le> u32_add_int x xOffset \<and> u32_add_int x xOffset < m_width s then
                   [u32 (u32_add_int x xOffset + u32 (u32_add_int y yOffset * m_width s))]
                 else []) [- radius..radius])
             else []) [- radius..radius]))"

definition GetNumberAdjacentMines :: "MinefieldWindow \<Rightarrow> nat \<Rightarrow> nat \<Rightarrow> nat" where
  "GetNumberAdjacentMines s x y =
     length (filter (\<lambda>tile. tileContent (tile_at s tile) = MINE) (GetTileGrid s x y 1))"

subsection \<open>Question marks\<close>

definition clear_question_mark :: "nat \<Rightarrow> nat \<Rightarrow> MinefieldWindow \<Rightarrow> MinefieldWindow" where
  "clear_question_mark x y s =
     (if tileMark (tile_xy s x y) = QUESTION_MARK
      then SetTileMark (x + y * m_width s) NONE s else s)"

definition ToggleQuestionMarkUsage :: "MinefieldWindow \<Rightarrow> MinefieldWindow" where
  "ToggleQuestionMarkUsage s =
     (let s1 = s\<lparr>m_bQuestionMarksEnabled := \<not> m_bQuestionMarksEnabled s\<rparr>
      in if \<not> m_bQuestionMarksEnabled s1
         then fold (\<lambda>x. fold (\<lambda>y. clear_question_mark x y) [0..<m_height s1]) [0..<m_width s1] s1
         else s1)"

subsection \<open>Mine generation\<close>

text \<open>
  The \<^verbatim>\<open>switch\<close> of \<^verbatim>\<open>GenerateNumbers\<close>: the content for a number of adjacent
  mines, \<^verbatim>\<open>EMPTY\<close> for 0 and for the \<^verbatim>\<open>default\<close> branch.
\<close>

definition number_content :: "nat \<Rightarrow> TileContent" where
  "number_content n =
     (if n = 1 then ONE else if n = 2 then TWO else if n = 3 then THREE
      else if n = 4 then FOUR else if n = 5 then FIVE else if n = 6 then SIX
      else if n = 7 then SEVEN else if n = 8 then EIGHT else EMPTY)"

definition number_tile :: "nat \<Rightarrow> nat \<Rightarrow> MinefieldWindow \<Rightarrow> MinefieldWindow" where
  "number_tile x y s =
     (if tileContent (tile_xy s x y) \<noteq> MINE
      then SetTileContent (x + y * m_width s) (number_content (GetNumberAdjacentMines s x y)) s
      else s)"

definition GenerateNumbers :: "MinefieldWindow \<Rightarrow> MinefieldWindow" where
  "GenerateNumbers s =
     fold (\<lambda>x. fold (\<lambda>y. number_tile x y) [0..<m_height s]) [0..<m_width s] s"

text \<open>
  The loop of \<^verbatim>\<open>GenerateMines\<close> over \<^verbatim>\<open>tile = 0 .. size - 1\<close> that collects the
  tiles to toggle: \<open>excluded\<close> is the rest of \<^verbatim>\<open>excludedTiles\<close> from \<^verbatim>\<open>itLeft\<close>
  on. A pointer \<^verbatim>\<open>&m_aMineTiles[tile]\<close> is modelled by the index \<open>tile\<close>.
\<close>

fun tilesToToggle_loop :: "nat list \<Rightarrow> nat list \<Rightarrow> nat list" where
  "tilesToToggle_loop [] excluded = []"
| "tilesToToggle_loop (tile # rest) excluded =
     (if excluded = [] \<or> tile < hd excluded
      then tile # tilesToToggle_loop rest excluded
      else tilesToToggle_loop rest (tl excluded))"

definition exclusion_radius :: "MinefieldWindow \<Rightarrow> int" where
  "exclusion_radius s = (if u32_sub (m_cTiles s) (m_cMines s) < 9 then 0 else 1)"

definition GenerateMines_candidates :: "MinefieldWindow \<Rightarrow> nat \<Rightarrow> nat \<Rightarrow> nat list" where
  "GenerateMines_candidates s x y =
     tilesToToggle_loop [0..<length (m_aMineTiles s)] (GetTileGrid s x y (exclusion_radius s))"

text \<open>
  \<^verbatim>\<open>m_rng.SampleVector\<close> belongs to the Randomizer, which is not among the sources. It
  is an argument of the model: a function from the candidates and a count to the drawn
  items.
\<close>

type_synonym sampler = "nat list \<Rightarrow> nat \<Rightarrow> nat list"

definition GenerateMines :: "sampler \<Rightarrow> nat \<Rightarrow> nat \<Rightarrow> MinefieldWindow \<Rightarrow> MinefieldWindow" where
  "GenerateMines SampleVector x y s =
     (let tilesToToggle = SampleVector (GenerateMines_candidates s x y) (m_cMines s)
      in GenerateNumbers (fold (\<lambda>tile. SetTileContent tile MINE) tilesToToggle s))"

text \<open>
  Modelled from the spec: the Randomizer's contract (section 4.1). Given the candidates
  and a count \<open>k \<le> len\<close> it returns exactly \<open>k\<close> distinct items of the candidates. The
  spec promises nothing for \<open>k > len\<close>.
\<close>

definition SampleVector_contract :: "sampler \<Rightarrow> bool" where
  "SampleVector_contract SampleVector =
     (\<forall>xs k. k \<le> length xs \<and> distinct xs \<longrightarrow>
        length (SampleVector xs k) = k \<and> distinct (SampleVector xs k) \<and>
        set (SampleVector xs k) \<subseteq> set xs)"

text \<open>
  Modelled from the spec: one Randomizer that meets the contract, the one that always
  draws the first \<open>k\<close> candidates. It stands for \<^verbatim>\<open>m_rng\<close> where a theorem is run on
  a concrete field.
\<close>

definition SampleVector_first :: sampler where
  "SampleVector_first xs k = take k xs"

subsection \<open>Revealing\<close>

definition reveal_index :: "nat \<Rightarrow> MinefieldWindow \<Rightarrow> MinefieldWindow" where
  "reveal_index tile s =
     (SetTileState tile REVEALED s)\<lparr>m_cRevealedTiles := u32 (m_cRevealedTiles s + 1)\<rparr>"

text \<open>
  The body of the \<^verbatim>\<open>for\<close> loop inside the \<^verbatim>\<open>while\<close> loop of \<^verbatim>\<open>SetTileRevealed\<close>,
  for one \<open>tile\<close> of the grid around the front of the queue. The queue
  \<^verbatim>\<open>tilesToProcess\<close> is a list, its front the head, \<^verbatim>\<open>push\<close> appends.
\<close>

definition flood_visit :: "nat \<Rightarrow> nat list \<times> MinefieldWindow \<Rightarrow> nat list \<times> MinefieldWindow" where
  "flood_visit tile = (\<lambda>(tilesToProcess, s).
     if tileState (tile_at s tile) \<noteq> REVEALED \<and> tileMark (tile_at s tile) \<noteq> FLAG then
       (let s1 = reveal_index tile s
        in (if tileContent (tile_at s1 tile) = EMPTY then tilesToProcess @ [tile]
            else tilesToProcess, s1))
     else (tilesToProcess, s))"

definition flood_cond :: "nat list \<times> MinefieldWindow \<Rightarrow> bool" where
  "flood_cond = (\<lambda>(tilesToProcess, s). length tilesToProcess \<noteq> 0)"

definition flood_body :: "nat list \<times> MinefieldWindow \<Rightarrow> nat list \<times> MinefieldWindow" where
  "flood_body = (\<lambda>(tilesToProcess, s).
     (let front = hd tilesToProcess;
          (q1, s1) = fold flood_visit
                       (GetTileGrid s (front mod m_width s) (front div m_width s) 1)
                       (tilesToProcess, s)
      in (tl q1, s1)))"

definition SetTileRevealed :: "nat \<Rightarrow> nat \<Rightarrow> MinefieldWindow \<Rightarrow> MinefieldWindow" where
  "SetTileRevealed x y s =
     (if tileState (tile_xy s x y) \<noteq> REVEALED \<and> tileMark (tile_xy s x y) \<noteq> FLAG then
        (let s1 = reveal_index (x + y * m_width s) s
         in if tileContent (tile_xy s1 x y) = MINE then s1\<lparr>m_bGameLost := True\<rparr>
            else if tileContent (tile_xy s1 x y) = EMPTY then
              snd (while flood_cond flood_body ([u32 (x + u32 (y * m_width s1))], s1))
            else s1)
      else s)"

text \<open>
  The cells that one turn of the \<^verbatim>\<open>while\<close> loop pushes, and the loop run next to a
  log of every cell that ever entered the queue. The log is an observer: the second
  component of \<open>flood_log_body\<close> is \<open>flood_body\<close> itself.
\<close>

definition flood_pushed :: "nat list \<times> MinefieldWindow \<Rightarrow> nat list" where
  "flood_pushed = (\<lambda>(tilesToProcess, s).
     drop (length tilesToProcess)
       (fst (fold flood_visit
          (GetTileGrid s (hd tilesToProcess mod m_width s) (hd tilesToProcess div m_width s) 1)
          (tilesToProcess, s))))"

definition flood_log_body ::
  "nat list \<times> nat list \<times> MinefieldWindow \<Rightarrow> nat list \<times> nat list \<times> MinefieldWindow" where
  "flood_log_body = (\<lambda>(entered, qs). (entered @ flood_pushed qs, flood_body qs))"

subsection \<open>Previews and chords\<close>

text \<open>
  Two loops that the source writes out at each place of use: every \<^verbatim>\<open>CLICKED\<close> tile
  of a grid goes back to \<^verbatim>\<open>HIDDEN\<close>, and every \<^verbatim>\<open>HIDDEN\<close> tile of a grid without a
  flag becomes \<^verbatim>\<open>CLICKED\<close>.
\<close>

definition unclick_tile :: "nat \<Rightarrow> MinefieldWindow \<Rightarrow> MinefieldWindow" where
  "unclick_tile tile s =
     (if tileState (tile_at s tile) = CLICKED then SetTileState tile HIDDEN s else s)"

definition click_tile :: "nat \<Rightarrow> MinefieldWindow \<Rightarrow> MinefieldWindow" where
  "click_tile tile s =
     (if tileState (tile_at s tile) = HIDDEN \<and> tileMark (tile_at s tile) \<noteq> FLAG
      then SetTileState tile CLICKED s else s)"

definition BeginChord :: "nat \<Rightarrow> nat \<Rightarrow> MinefieldWindow \<Rightarrow> MinefieldWindow" where
  "BeginChord x y s = (fold click_tile (GetTileGrid s x y 1) s)\<lparr>m_bChording := True\<rparr>"

definition count_flags :: "MinefieldWindow \<Rightarrow> nat \<Rightarrow> nat \<Rightarrow> nat" where
  "count_flags s x y =
     length (filter (\<lambda>tile. tileMark (tile_at s tile) = FLAG) (GetTileGrid s x y 1))"

definition EndChord :: "nat \<Rightarrow> nat \<Rightarrow> MinefieldWindow \<Rightarrow> MinefieldWindow" where
  "EndChord x y s =
     (if tileState (tile_xy s x y) = REVEALED then
        (if count_flags s x y = GetNumberAdjacentMines s x y then
           fold (\<lambda>tile s1. SetTileRevealed (tile mod m_width s1) (tile div m_width s1) s1)
             (GetTileGrid s x y 1) s
         else fold unclick_tile (GetTileGrid s x y 1) s)
      else fold unclick_tile (GetTileGrid s x y 1) s)\<lparr>m_bChording := False\<rparr>"

definition MovePos ::
  "nat \<times> nat \<Rightarrow> nat \<times> nat \<Rightarrow> nat \<Rightarrow> bool \<Rightarrow> MinefieldWindow \<Rightarrow> MinefieldWindow" where
  "MovePos oldPos newPos tileUpdateRadius forceUpdate s =
     (if fst oldPos \<noteq> fst newPos \<or> snd oldPos \<noteq> snd newPos \<or> forceUpdate then
        (let s1 = fold unclick_tile
                    (GetTileGrid s (fst oldPos) (snd oldPos) (int tileUpdateRadius)) s
         in fold click_tile
              (GetTileGrid s1 (fst newPos) (snd newPos) (int tileUpdateRadius)) s1)
      else s)"

subsection \<open>Input handlers\<close>

text \<open>
  The button bits of \<^verbatim>\<open>wParam\<close> that the handlers test. \<^verbatim>\<open>MouseToTilePos\<close>
  (floating-point arithmetic on the client rectangle, then clamped into the grid) is
  not modelled: a handler takes the grid position \<open>gridPos\<close> it computes from
  \<^verbatim>\<open>lParam\<close>.
\<close>

record WPARAM =
  MK_LBUTTON :: bool
  MK_RBUTTON :: bool
  MK_MBUTTON :: bool

definition OnLButtonDown :: "WPARAM \<Rightarrow> nat \<times> nat \<Rightarrow> MinefieldWindow \<Rightarrow> MinefieldWindow" where
  "OnLButtonDown wParam gridPos s =
     (if IsGameActive s \<and> \<not> MK_MBUTTON wParam \<and> \<not> m_bLRHeldAfterChord s then
        (if MK_RBUTTON wParam then BeginChord (fst gridPos) (snd gridPos) s
         else if tileState (tile_xy s (fst gridPos) (snd gridPos)) = HIDDEN
               \<and> tileMark (tile_xy s (fst gridPos) (snd gridPos)) \<noteq> FLAG
         then SetTileState (fst gridPos + snd gridPos * m_width s) CLICKED s
         else s)
      else s)"

definition OnLButtonUp ::
  "sampler \<Rightarrow> WPARAM \<Rightarrow> nat \<times> nat \<Rightarrow> MinefieldWindow \<Rightarrow> MinefieldWindow" where
  "OnLButtonUp SampleVector wParam gridPos s =
     (if IsGameActive s \<and> \<not> MK_MBUTTON wParam \<and> \<not> m_bLRHeldAfterChord s then
        (if m_bChording s then
           (EndChord (fst gridPos) (snd gridPos) s)\<lparr>m_bLRHeldAfterChord := True\<rparr>
         else if tileState (tile_xy s (fst gridPos) (snd gridPos)) = CLICKED then
           (let s1 = (if m_cRevealedTiles s = 0
                      then GenerateMines SampleVector (fst gridPos) (snd gridPos) s else s)
            in SetTileRevealed (fst gridPos) (snd gridPos) s1)
         else s)
      else if m_bLRHeldAfterChord s \<and> \<not> MK_RBUTTON wParam then
        s\<lparr>m_bLRHeldAfterChord := False\<rparr>
      else s)"

definition cycle_mark :: "nat \<Rightarrow> MinefieldWindow \<Rightarrow> MinefieldWindow" where
  "cycle_mark tile s =
     (case tileMark (tile_at s tile) of
        NONE \<Rightarrow> SetTileMark tile FLAG (s\<lparr>m_cFlaggedTiles := u32 (m_cFlaggedTiles s + 1)\<rparr>)
      | FLAG \<Rightarrow>
          (let s1 = s\<lparr>m_cFlaggedTiles := u32_sub (m_cFlaggedTiles s) 1\<rparr>
           in if m_bQuestionMarksEnabled s1 then SetTileMark tile QUESTION_MARK s1
              else SetTileMark tile NONE s1)
      | QUESTION_MARK \<Rightarrow> SetTileMark tile NONE s)"

definition OnRButtonDown :: "WPARAM \<Rightarrow> nat \<times> nat \<Rightarrow> MinefieldWindow \<Rightarrow> MinefieldWindow" where
  "OnRButtonDown wParam gridPos s =
     (if IsGameActive s \<and> \<not> MK_MBUTTON wParam \<and> \<not> m_bLRHeldAfterChord s then
        (if MK_LBUTTON wParam then BeginChord (fst gridPos) (snd gridPos) s
         else if tileState (tile_xy s (fst gridPos) (snd gridPos)) = HIDDEN
         then cycle_mark (fst gridPos + snd gridPos * m_width s) s
         else s)
      else s)"

definition OnRButtonUp :: "WPARAM \<Rightarrow> nat \<times> nat \<Rightarrow> MinefieldWindow \<Rightarrow> MinefieldWindow" where
  "OnRButtonUp wParam gridPos s =
     (if IsGameActive s \<and> \<not> MK_MBUTTON wParam \<and> \<not> m_bLRHeldAfterChord s then
        (if m_bChording s then
           (EndChord (fst gridPos) (snd gridPos) s)\<lparr>m_bLRHeldAfterChord := True\<rparr>
         else s)
      else if m_bLRHeldAfterChord s \<and> \<not> MK_LBUTTON wParam then
        s\<lparr>m_bLRHeldAfterChord := False\<rparr>
      else s)"

definition OnMButtonDown :: "WPARAM \<Rightarrow> nat \<times> nat \<Rightarrow> MinefieldWindow \<Rightarrow> MinefieldWindow" where
  "OnMButtonDown wParam gridPos s =
     (if IsGameActive s \<and> \<not> m_bChording s then
        (if \<not> m_bChording s then BeginChord (fst gridPos) (snd gridPos) s else s)
      else s)"

definition OnMButtonUp :: "WPARAM \<Rightarrow> nat \<times> nat \<Rightarrow> MinefieldWindow \<Rightarrow> MinefieldWindow" where
  "OnMButtonUp wParam gridPos s =
     (if IsGameActive s then
        (if m_bChording s then
           (let s1 = (if MK_LBUTTON wParam \<or> MK_RBUTTON wParam
                      then s\<lparr>m_bLRHeldAfterChord := True\<rparr> else s)
            in EndChord (fst gridPos) (snd gridPos) s1)
         else s)
      else s)"

text \<open>
  \<open>tracked\<close> is what \<^verbatim>\<open>TrackMouseEvent\<close> returns. \<^verbatim>\<open>IsGameActive\<close> is read after the
  tracking flag is set and before the tiles move; neither changes it.
\<close>

definition OnMouseMove ::
  "WPARAM \<Rightarrow> nat \<times> nat \<Rightarrow> bool \<Rightarrow> MinefieldWindow \<Rightarrow> MinefieldWindow" where
  "OnMouseMove wParam gridPos tracked s =
     (if \<not> m_bMouseTracking s then
        (let s1 = (if tracked then s\<lparr>m_bMouseTracking := True\<rparr> else s)
         in if IsGameActive s1 then
              (let s2 = (if MK_LBUTTON wParam \<or> MK_MBUTTON wParam then
                           (let s3 = (if MK_RBUTTON wParam \<or> MK_MBUTTON wParam
                                      then MovePos (m_lastGridPos s1) gridPos 1 True s1
                                      else MovePos (m_lastGridPos s1) gridPos 0 True s1)
                            in s3\<lparr>m_bChording := ((MK_LBUTTON wParam \<and> MK_RBUTTON wParam)
                                                   \<or> MK_MBUTTON wParam)\<rparr>)
                         else s1)
               in s2\<lparr>m_lastGridPos := gridPos\<rparr>)
            else s1)
      else
        (if IsGameActive s then
           (let s2 = (if MK_LBUTTON wParam \<or> MK_MBUTTON wParam then
                        (if m_bChording s then MovePos (m_lastGridPos s) gridPos 1 False s
                         else if \<not> m_bLRHeldAfterChord s
                         then MovePos (m_lastGridPos s) gridPos 0 False s
                         else s)
                      else s)
            in s2\<lparr>m_lastGridPos := gridPos\<rparr>)
         else s))"

definition OnMouseLeave :: "MinefieldWindow \<Rightarrow> MinefieldWindow" where
  "OnMouseLeave s =
     (let s1 = (if IsGameActive s then
                  fold unclick_tile
                    (GetTileGrid s (fst (m_lastGridPos s)) (snd (m_lastGridPos s))
                       (if m_bChording s then 1 else 0)) s
                else s)
      in s1\<lparr>m_bLRHeldAfterChord := False, m_bMouseTracking := False\<rparr>)"

subsection \<open>The window procedure and the reachable windows\<close>

text \<open>
  The messages of \<^verbatim>\<open>HandleMessage\<close> that reach the minefield. A mouse message carries
  the button bits and the grid position; \<^verbatim>\<open>WM_MOUSEMOVE\<close> also carries the answer of
  \<^verbatim>\<open>TrackMouseEvent\<close>. The other messages (create, destroy, paint, size, erase) leave
  the data members alone.
\<close>

datatype message =
    WM_LBUTTONDOWN WPARAM "nat \<times> nat"
  | WM_LBUTTONUP WPARAM "nat \<times> nat"
  | WM_RBUTTONDOWN WPARAM "nat \<times> nat"
  | WM_RBUTTONUP WPARAM "nat \<times> nat"
  | WM_MBUTTONDOWN WPARAM "nat \<times> nat"
  | WM_MBUTTONUP WPARAM "nat \<times> nat"
  | WM_MOUSEMOVE WPARAM "nat \<times> nat" bool
  | WM_MOUSELEAVE
  | WM_OTHER

fun HandleMessage :: "sampler \<Rightarrow> message \<Rightarrow> MinefieldWindow \<Rightarrow> MinefieldWindow" where
  "HandleMessage SampleVector (WM_LBUTTONDOWN wParam gridPos) s = OnLButtonDown wParam gridPos s"
| "HandleMessage SampleVector (WM_LBUTTONUP wParam gridPos) s =
     OnLButtonUp SampleVector wParam gridPos s"
| "HandleMessage SampleVector (WM_RBUTTONDOWN wParam gridPos) s = OnRButtonDown wParam gridPos s"
| "HandleMessage SampleVector (WM_RBUTTONUP wParam gridPos) s = OnRButtonUp wParam gridPos s"
| "HandleMessage SampleVector (WM_MBUTTONDOWN wParam gridPos) s = OnMButtonDown wParam gridPos s"
| "HandleMessage SampleVector (WM_MBUTTONUP wParam gridPos) s = OnMButtonUp wParam gridPos s"
| "HandleMessage SampleVector (WM_MOUSEMOVE wParam gridPos tracked) s =
     OnMouseMove wParam gridPos tracked s"
| "HandleMessage SampleVector WM_MOUSELEAVE s = OnMouseLeave s"
| "HandleMessage SampleVector WM_OTHER s = s"

text \<open>The grid position of a message, where it has one.\<close>

fun message_pos :: "message \<Rightarrow> (nat \<times> nat) option" where
  "message_pos (WM_LBUTTONDOWN wParam gridPos) = Some gridPos"
| "message_pos (WM_LBUTTONUP wParam gridPos) = Some gridPos"
| "message_pos (WM_RBUTTONDOWN wParam gridPos) = Some gridPos"
| "message_pos (WM_RBUTTONUP wParam gridPos) = Some gridPos"
| "message_pos (WM_MBUTTONDOWN wParam gridPos) = Some gridPos"
| "message_pos (WM_MBUTTONUP wParam gridPos) = Some gridPos"
| "message_pos (WM_MOUSEMOVE wParam gridPos tracked) = Some gridPos"
| "message_pos WM_MOUSELEAVE = None"
| "message_pos WM_OTHER = None"

text \<open>
  A position is in the grid when \<^verbatim>\<open>MouseToTilePos\<close> can return it: it clamps both
  coordinates into \<open>0 .. m_width - 1\<close> and \<open>0 .. m_height - 1\<close>.
\<close>

definition in_grid :: "MinefieldWindow \<Rightarrow> nat \<times> nat \<Rightarrow> bool" where
  "in_grid s gridPos = (fst gridPos < m_width s \<and> snd gridPos < m_height s)"

definition message_in_grid :: "MinefieldWindow \<Rightarrow> message \<Rightarrow> bool" where
  "message_in_grid s msg = (case message_pos msg of None \<Rightarrow> True | Some gridPos \<Rightarrow> in_grid s gridPos)"

text \<open>
  A valid configuration: both sides are \<^verbatim>\<open>UINT\<close> values and \<^verbatim>\<open>width * height\<close> does
  not wrap.
\<close>

definition valid_size :: "nat \<Rightarrow> nat \<Rightarrow> bool" where
  "valid_size width height =
     (width < 4294967296 \<and> height < 4294967296 \<and> width * height < 4294967296)"

text \<open>
  The windows that a run of the program can show: a constructed window of a valid
  size, then any sequence of the public calls and of messages whose positions are in
  the grid.
\<close>

inductive reachable :: "sampler \<Rightarrow> MinefieldWindow \<Rightarrow> bool" for SampleVector :: sampler where
  reachable_ctor:
    "valid_size width height \<Longrightarrow>
     reachable SampleVector (MinefieldWindow_ctor width height cMines chording held lastPos)"
| reachable_Resize:
    "reachable SampleVector s \<Longrightarrow> valid_size width height \<Longrightarrow>
     reachable SampleVector (fst (Resize width height cMines s))"
| reachable_ResetGame:
    "reachable SampleVector s \<Longrightarrow> reachable SampleVector (ResetGame s)"
| reachable_ToggleQuestionMarkUsage:
    "reachable SampleVector s \<Longrightarrow> reachable SampleVector (ToggleQuestionMarkUsage s)"
| reachable_HandleMessage:
    "reachable SampleVector s \<Longrightarrow> message_in_grid s msg \<Longrightarrow>
     reachable SampleVector (HandleMessage SampleVector msg s)"

text \<open>
  \<^verbatim>\<open>SetTileRevealed\<close> once more, with the log: the same branches, the loop replaced
  by the logged loop, and \<open>None\<close> where the loop would run forever.
\<close>

definition SetTileRevealed_logged ::
  "nat \<Rightarrow> nat \<Rightarrow> MinefieldWindow \<Rightarrow> (nat list \<times> MinefieldWindow) option" where
  "SetTileRevealed_logged x y s =
     (if tileState (tile_xy s x y) \<noteq> REVEALED \<and> tileMark (tile_xy s x y) \<noteq> FLAG then
        (let s1 = reveal_index (x + y * m_width s) s
         in if tileContent (tile_xy s1 x y) = MINE then Some ([], s1\<lparr>m_bGameLost := True\<rparr>)
            else if tileContent (tile_xy s1 x y) = EMPTY then
              map_option (\<lambda>(entered, tilesToProcess, t). (entered, t))
                (while_option (flood_cond \<circ> snd) flood_log_body
                   ([u32 (x + u32 (y * m_width s1))], [u32 (x + u32 (y * m_width s1))], s1))
            else Some ([], s1))
      else Some ([], s))"

text \<open>
  Modelled from the spec: what section 4.1 says of every draw, that the items returned
  are items of the sequence given. In the source they are pointers into
  \<^verbatim>\<open>m_aMineTiles\<close> taken from the candidate vector. It is the part of the contract that
  still makes sense when more items are asked for than there are candidates.
\<close>

definition draws_from_candidates :: "sampler \<Rightarrow> bool" where
  "draws_from_candidates SampleVector = (\<forall>xs k. set (SampleVector xs k) \<subseteq> set xs)"

section \<open>Vocabulary of the properties\<close>

text \<open>
  A well-formed field: the data members are \<^verbatim>\<open>UINT\<close> values, \<^verbatim>\<open>width * height\<close> did not
  wrap, the vector has \<^verbatim>\<open>m_cTiles\<close> tiles and \<^verbatim>\<open>m_cMines\<close> is clamped. The constructor
  and \<^verbatim>\<open>Resize\<close> establish it for a valid size.
\<close>

definition wf_field :: "MinefieldWindow \<Rightarrow> bool" where
  "wf_field s =
     (m_width s < 4294967296 \<and> m_height s < 4294967296 \<and>
      m_width s * m_height s < 4294967296 \<and>
      m_cTiles s = m_width s * m_height s \<and>
      length (m_aMineTiles s) = m_cTiles s \<and>
      m_cMines s \<le> m_cTiles s \<and>
      m_cRevealedTiles s < 4294967296 \<and> m_cFlaggedTiles s < 4294967296)"

text \<open>The number of revealed tiles, and the relation of a window to itself after reveals.\<close>

definition count_revealed :: "MinefieldWindow \<Rightarrow> nat" where
  "count_revealed s = length (filter (\<lambda>t. tileState t = REVEALED) (m_aMineTiles s))"

definition reveals :: "nat set \<Rightarrow> MinefieldWindow \<Rightarrow> MinefieldWindow \<Rightarrow> bool" where
  "reveals G s s' =
     (m_width s' = m_width s \<and> m_height s' = m_height s \<and> m_cTiles s' = m_cTiles s \<and>
      m_cMines s' = m_cMines s \<and> m_cFlaggedTiles s' = m_cFlaggedTiles s \<and>
      m_bMouseTracking s' = m_bMouseTracking s \<and> m_bGameLost s' = m_bGameLost s \<and>
      m_bQuestionMarksEnabled s' = m_bQuestionMarksEnabled s \<and>
      m_bChording s' = m_bChording s \<and> m_bLRHeldAfterChord s' = m_bLRHeldAfterChord s \<and>
      m_lastGridPos s' = m_lastGridPos s \<and> MinefieldWindow.more s' = MinefieldWindow.more s \<and>
      length (m_aMineTiles s') = length (m_aMineTiles s) \<and>
      (\<forall>i < length (m_aMineTiles s).
         tile_at s' i = tile_at s i \<or>
         (i \<in> G \<and> tileState (tile_at s i) \<noteq> REVEALED \<and> tileMark (tile_at s i) \<noteq> FLAG \<and>
          tile_at s' i = (tile_at s i)\<lparr>tileState := REVEALED\<rparr>)) \<and>
      count_revealed s \<le> count_revealed s' \<and>
      m_cRevealedTiles s' = u32 (m_cRevealedTiles s + (count_revealed s' - count_revealed s)))"

text \<open>
  What the loop of \<^verbatim>\<open>SetTileRevealed\<close> keeps: the cells pushed in one turn, the tiles
  next to an \<^verbatim>\<open>EMPTY\<close> tile, the invariant, the measure, and the invariant of the log.
\<close>

definition pushed_ok :: "MinefieldWindow \<Rightarrow> MinefieldWindow \<Rightarrow> nat list \<Rightarrow> bool" where
  "pushed_ok s s' p =
     (distinct p \<and> length p + count_revealed s \<le> count_revealed s' \<and>
      (\<forall>j \<in> set p. tileState (tile_at s j) \<noteq> REVEALED \<and> tileState (tile_at s' j) = REVEALED \<and>
         tileContent (tile_at s j) = EMPTY))"

definition near_empty :: "MinefieldWindow \<Rightarrow> nat set" where
  "near_empty s =
     {i. \<exists>j < length (m_aMineTiles s). tileContent (tile_at s j) = EMPTY \<and>
          i \<in> set (GetTileGrid s (j mod m_width s) (j div m_width s) 1)}"

definition flood_inv :: "MinefieldWindow \<Rightarrow> nat list \<times> MinefieldWindow \<Rightarrow> bool" where
  "flood_inv s0 = (\<lambda>(q, t).
     reveals (near_empty s0) s0 t \<and>
     (\<forall>j \<in> set q. j < length (m_aMineTiles s0) \<and> tileContent (tile_at s0 j) = EMPTY))"

definition flood_measure :: "nat list \<times> MinefieldWindow \<Rightarrow> nat" where
  "flood_measure = (\<lambda>(q, t). length q + (length (m_aMineTiles t) - count_revealed t))"

definition log_inv :: "MinefieldWindow \<Rightarrow> nat list \<times> nat list \<times> MinefieldWindow \<Rightarrow> bool" where
  "log_inv s0 = (\<lambda>(entered, q, t).
     flood_inv s0 (q, t) \<and> distinct entered \<and>
     (\<forall>i \<in> set entered. i < length (m_aMineTiles s0) \<and> tileState (tile_at t i) = REVEALED))"


text \<open>A fresh field of two columns and one row without mines.\<close>

definition field_2x1 :: MinefieldWindow where
  "field_2x1 = MinefieldWindow_ctor 2 1 0 False False (0, 0)"

text \<open>The same field with a flag on its first tile.\<close>

definition field_flagged :: MinefieldWindow where
  "field_flagged =
     \<lparr>m_width = 2, m_height = 1, m_cTiles = 2, m_cMines = 0,
      m_cRevealedTiles = 0, m_cFlaggedTiles = 1,
      m_bMouseTracking = False, m_bGameLost = False, m_bQuestionMarksEnabled = False,
      m_bChording = False, m_bLRHeldAfterChord = False, m_lastGridPos = (0, 0),
      m_aMineTiles = [\<lparr>tileContent = EMPTY, tileState = HIDDEN, tileMark = FLAG\<rparr>,
                      MineTile_default]\<rparr>"

text \<open>The parts of the invariant of the reachable windows.\<close>

definition count_flagged :: "MinefieldWindow \<Rightarrow> nat" where
  "count_flagged s = length (filter (\<lambda>t. tileMark t = FLAG) (m_aMineTiles s))"

definition flags_hidden :: "MinefieldWindow \<Rightarrow> bool" where
  "flags_hidden s =
     (\<forall>i < length (m_aMineTiles s). tileMark (tile_at s i) = FLAG \<longrightarrow> tileState (tile_at s i) = HIDDEN)"

definition revealed_mine :: "MinefieldWindow \<Rightarrow> bool" where
  "revealed_mine s =
     (\<exists>i < length (m_aMineTiles s). tileState (tile_at s i) = REVEALED \<and> tileContent (tile_at s i) = MINE)"

definition numbers_ok :: "MinefieldWindow \<Rightarrow> bool" where
  "numbers_ok s =
     (\<forall>i \<in> near_empty s. i < length (m_aMineTiles s) \<longrightarrow> tileContent (tile_at s i) \<noteq> MINE)"

definition field_inv :: "MinefieldWindow \<Rightarrow> bool" where
  "field_inv s =
     (wf_field s \<and> m_cRevealedTiles s = count_revealed s \<and> m_cFlaggedTiles s = count_flagged s \<and>
      flags_hidden s \<and> (m_bGameLost s \<longleftrightarrow> revealed_mine s) \<and> numbers_ok s)"

text \<open>
  A step that is harmless to the invariant: a tile keeps its content, whether it is
  flagged and whether it is revealed, and a hidden flagged tile stays hidden.
\<close>

definition tile_step_ok :: "MineTile \<Rightarrow> MineTile \<Rightarrow> bool" where
  "tile_step_ok t t' =
     (tileContent t' = tileContent t \<and> (tileMark t' = FLAG \<longleftrightarrow> tileMark t = FLAG) \<and>
      (tileState t' = REVEALED \<longleftrightarrow> tileState t = REVEALED) \<and>
      (tileMark t = FLAG \<and> tileState t = HIDDEN \<longrightarrow> tileState t' = HIDDEN))"

definition benign :: "MinefieldWindow \<Rightarrow> MinefieldWindow \<Rightarrow> bool" where
  "benign s s' =
     (m_width s' = m_width s \<and> m_height s' = m_height s \<and> m_cTiles s' = m_cTiles s \<and>
      m_cMines s' = m_cMines s \<and> m_cRevealedTiles s' = m_cRevealedTiles s \<and>
      m_cFlaggedTiles s' = m_cFlaggedTiles s \<and> m_bGameLost s' = m_bGameLost s \<and>
      length (m_aMineTiles s') = length (m_aMineTiles s) \<and>
      (\<forall>i < length (m_aMineTiles s). tile_step_ok (tile_at s i) (tile_at s' i)))"

text \<open>A step that changes contents only, and one that keeps the mines where they are.\<close>

definition recontent :: "MinefieldWindow \<Rightarrow> MinefieldWindow \<Rightarrow> bool" where
  "recontent s s' =
     (m_width s' = m_width s \<and> m_height s' = m_height s \<and> m_cTiles s' = m_cTiles s \<and>
      m_cMines s' = m_cMines s \<and> m_cRevealedTiles s' = m_cRevealedTiles s \<and>
      m_cFlaggedTiles s' = m_cFlaggedTiles s \<and> m_bGameLost s' = m_bGameLost s \<and>
      m_bMouseTracking s' = m_bMouseTracking s \<and>
      m_bQuestionMarksEnabled s' = m_bQuestionMarksEnabled s \<and>
      m_bChording s' = m_bChording s \<and> m_bLRHeldAfterChord s' = m_bLRHeldAfterChord s \<and>
      m_lastGridPos s' = m_lastGridPos s \<and>
      length (m_aMineTiles s') = length (m_aMineTiles s) \<and>
      (\<forall>i < length (m_aMineTiles s).
         tileState (tile_at s' i) = tileState (tile_at s i) \<and>
         tileMark (tile_at s' i) = tileMark (tile_at s i)))"

definition mines_kept :: "MinefieldWindow \<Rightarrow> MinefieldWindow \<Rightarrow> bool" where
  "mines_kept s s' =
     (\<forall>i < length (m_aMineTiles s).
        (tileContent (tile_at s' i) = MINE) = (tileContent (tile_at s i) = MINE))"

text \<open>
  The windows of a game on three columns and one row with one mine, written out: fresh,
  first tile pressed, first tile revealed, then the mine flagged, or pressed and
  revealed, or the last tile pressed and revealed.
\<close>

definition no_buttons :: WPARAM where
  "no_buttons = \<lparr>MK_LBUTTON = False, MK_RBUTTON = False, MK_MBUTTON = False\<rparr>"

definition tile :: "TileContent \<Rightarrow> TileState \<Rightarrow> TileMark \<Rightarrow> MineTile" where
  "tile c st mk = \<lparr>tileContent = c, tileState = st, tileMark = mk\<rparr>"

definition field_3x1 :: "nat \<Rightarrow> nat \<Rightarrow> bool \<Rightarrow> MineTile list \<Rightarrow> MinefieldWindow" where
  "field_3x1 revealed flagged lost tiles =
     \<lparr>m_width = 3, m_height = 1, m_cTiles = 3, m_cMines = 1,
      m_cRevealedTiles = revealed, m_cFlaggedTiles = flagged,
      m_bMouseTracking = False, m_bGameLost = lost, m_bQuestionMarksEnabled = False,
      m_bChording = False, m_bLRHeldAfterChord = False, m_lastGridPos = (0, 0),
      m_aMineTiles = tiles\<rparr>"

definition field_3x1_fresh :: MinefieldWindow where
  "field_3x1_fresh = field_3x1 0 0 False
     [tile EMPTY HIDDEN NONE, tile EMPTY HIDDEN NONE, tile EMPTY HIDDEN NONE]"

definition field_3x1_pressed :: MinefieldWindow where
  "field_3x1_pressed = field_3x1 0 0 False
     [tile EMPTY CLICKED NONE, tile EMPTY HIDDEN NONE, tile EMPTY HIDDEN NONE]"

definition field_3x1_opened :: MinefieldWindow where
  "field_3x1_opened = field_3x1 1 0 False
     [tile ONE REVEALED NONE, tile MINE HIDDEN NONE, tile ONE HIDDEN NONE]"

definition field_3x1_flagged :: MinefieldWindow where
  "field_3x1_flagged = field_3x1 1 1 False
     [tile ONE REVEALED NONE, tile MINE HIDDEN FLAG, tile ONE HIDDEN NONE]"

definition field_3x1_mine_pressed :: MinefieldWindow where
  "field_3x1_mine_pressed = field_3x1 1 0 False
     [tile ONE REVEALED NONE, tile MINE CLICKED NONE, tile ONE HIDDEN NONE]"

definition field_3x1_lost :: MinefieldWindow where
  "field_3x1_lost = field_3x1 2 0 True
     [tile ONE REVEALED NONE, tile MINE REVEALED NONE, tile ONE HIDDEN NONE]"



text \<open>
  A step that only reveals tiles without a flag, and a field on which a chord on the
  middle tile meets a flagged mine.
\<close>

definition reveal_only :: "MinefieldWindow \<Rightarrow> MinefieldWindow \<Rightarrow> bool" where
  "reveal_only s s' =
     (m_width s' = m_width s \<and> m_height s' = m_height s \<and>
      length (m_aMineTiles s') = length (m_aMineTiles s) \<and>
      (\<forall>k < length (m_aMineTiles s).
         tile_at s' k = tile_at s k \<or>
         (tileMark (tile_at s k) \<noteq> FLAG \<and> tileState (tile_at s k) \<noteq> REVEALED \<and>
          tile_at s' k = (tile_at s k)\<lparr>tileState := REVEALED\<rparr>)))"

definition field_3x1_chord :: MinefieldWindow where
  "field_3x1_chord = field_3x1 1 1 False
     [tile MINE HIDDEN FLAG, tile ONE REVEALED NONE, tile ONE HIDDEN NONE]"

text \<open>The number of mines of a field, and a field without any.\<close>

definition count_mines :: "MinefieldWindow \<Rightarrow> nat" where
  "count_mines s = length (filter (\<lambda>t. tileContent t = MINE) (m_aMineTiles s))"

definition no_mines :: "MinefieldWindow \<Rightarrow> bool" where
  "no_mines s = (\<forall>i < length (m_aMineTiles s). tileContent (tile_at s i) \<noteq> MINE)"

text \<open>A field of one tile that is to hold one mine, and a fresh field of four by three tiles with three mines.\<close>

definition field_1x1 :: MinefieldWindow where
  "field_1x1 =
     \<lparr>m_width = 1, m_height = 1, m_cTiles = 1, m_cMines = 1,
      m_cRevealedTiles = 0, m_cFlaggedTiles = 0,
      m_bMouseTracking = False, m_bGameLost = False, m_bQuestionMarksEnabled = False,
      m_bChording = False, m_bLRHeldAfterChord = False, m_lastGridPos = (0, 0),
      m_aMineTiles = [tile EMPTY HIDDEN NONE]\<rparr>"

definition field_4x3 :: MinefieldWindow where
  "field_4x3 = MinefieldWindow_ctor 4 3 3 False False (0, 0)"




text \<open>
  Two windows with the same contents, and what a run keeps true of the mines: none
  before the first reveal, and \<^verbatim>\<open>m_cMines\<close> of them after it when there are fewer mines
  than tiles.
\<close>

definition same_contents :: "MinefieldWindow \<Rightarrow> MinefieldWindow \<Rightarrow> bool" where
  "same_contents s s' =
     (m_cTiles s' = m_cTiles s \<and> m_cMines s' = m_cMines s \<and>
      length (m_aMineTiles s') = length (m_aMineTiles s) \<and>
      (\<forall>i < length (m_aMineTiles s). tileContent (tile_at s' i) = tileContent (tile_at s i)))"

definition mines_inv :: "MinefieldWindow \<Rightarrow> bool" where
  "mines_inv s =
     ((m_cRevealedTiles s = 0 \<longrightarrow> no_mines s) \<and>
      (0 < m_cRevealedTiles s \<and> m_cMines s < m_cTiles s \<longrightarrow> count_mines s = m_cMines s))"

section \<open>Counting and arithmetic without wrap-around\<close>

lemma u32_id: "n < 4294967296 \<Longrightarrow> u32 n = n"
  by (simp add: u32_def)

lemma count_update_new:
  "i < length ts \<Longrightarrow> \<not> P (ts ! i) \<Longrightarrow> P v \<Longrightarrow>
   length (filter P (ts[i := v])) = Suc (length (filter P ts))"
  by (induction ts arbitrary: i) (auto split: nat.splits)

lemma count_update_same:
  "i < length ts \<Longrightarrow> P v = P (ts ! i) \<Longrightarrow>
   length (filter P (ts[i := v])) = length (filter P ts)"
  by (induction ts arbitrary: i) (auto split: nat.splits)

lemma u32_u32_add: "u32 (u32 (a + b) + c) = u32 (a + (b + c))"
  by (simp add: u32_def mod_add_left_eq add.assoc)

section \<open>The flood of SetTileRevealed\<close>

text \<open>
  \<open>reveals G s s'\<close> is what revealing does to a window: only the tiles and
  \<^verbatim>\<open>m_cRevealedTiles\<close> move, a tile either stays or, being in \<open>G\<close>, not revealed and
  not flagged, becomes \<^verbatim>\<open>REVEALED\<close>, and the counter grows (modulo \<open>2^32\<close>) by the
  number of tiles that became revealed. The loop keeps it, and its measure, the
  length of the queue plus the number of tiles not yet revealed, falls with every turn.
\<close>

lemma reveals_refl: "m_cRevealedTiles s < 4294967296 \<Longrightarrow> reveals G s s"
  by (simp add: reveals_def u32_def)

lemma reveals_mono: "reveals G s s' \<Longrightarrow> G \<subseteq> H \<Longrightarrow> reveals H s s'"
  unfolding reveals_def by blast

lemma reveals_frame:
  assumes "reveals G s s'"
  shows "m_width s' = m_width s" "m_height s' = m_height s" "m_cTiles s' = m_cTiles s"
    "m_cMines s' = m_cMines s" "m_cFlaggedTiles s' = m_cFlaggedTiles s"
    "m_bMouseTracking s' = m_bMouseTracking s" "m_bGameLost s' = m_bGameLost s"
    "m_bQuestionMarksEnabled s' = m_bQuestionMarksEnabled s"
    "m_bChording s' = m_bChording s" "m_bLRHeldAfterChord s' = m_bLRHeldAfterChord s"
    "m_lastGridPos s' = m_lastGridPos s"
    "length (m_aMineTiles s') = length (m_aMineTiles s)"
  using assms by (simp_all add: reveals_def)

lemma reveals_tile:
  "reveals G s s' \<Longrightarrow> i < length (m_aMineTiles s) \<Longrightarrow>
   tileContent (tile_at s' i) = tileContent (tile_at s i) \<and>
   tileMark (tile_at s' i) = tileMark (tile_at s i) \<and>
   (tileState (tile_at s i) = REVEALED \<longrightarrow> tileState (tile_at s' i) = REVEALED) \<and>
   (tileState (tile_at s' i) \<noteq> REVEALED \<longrightarrow> tileState (tile_at s' i) = tileState (tile_at s i))"
  unfolding reveals_def by (elim conjE allE[of _ i]) auto

lemma reveals_trans:
  assumes a: "reveals G s s'" and b: "reveals H s' s''"
  shows "reveals (G \<union> H) s s''"
proof -
  note fa = reveals_frame[OF a] and fb = reveals_frame[OF b]
  have m: "MinefieldWindow.more s'' = MinefieldWindow.more s"
    using a b by (simp add: reveals_def)
  have c1: "count_revealed s \<le> count_revealed s'" and c2: "count_revealed s' \<le> count_revealed s''"
    using a b by (simp_all add: reveals_def)
  have r1: "m_cRevealedTiles s' = u32 (m_cRevealedTiles s + (count_revealed s' - count_revealed s))"
    and r2: "m_cRevealedTiles s'' = u32 (m_cRevealedTiles s' + (count_revealed s'' - count_revealed s'))"
    using a b by (simp_all add: reveals_def)
  have r: "m_cRevealedTiles s'' = u32 (m_cRevealedTiles s + (count_revealed s'' - count_revealed s))"
  proof -
    have "m_cRevealedTiles s'' =
        u32 (m_cRevealedTiles s + ((count_revealed s' - count_revealed s) + (count_revealed s'' - count_revealed s')))"
      by (simp only: r2 r1 u32_u32_add)
    also have "(count_revealed s' - count_revealed s) + (count_revealed s'' - count_revealed s')
        = count_revealed s'' - count_revealed s"
      using c1 c2 by simp
    finally show ?thesis .
  qed
  have t: "tile_at s'' i = tile_at s i \<or>
         (i \<in> G \<union> H \<and> tileState (tile_at s i) \<noteq> REVEALED \<and> tileMark (tile_at s i) \<noteq> FLAG \<and>
          tile_at s'' i = (tile_at s i)\<lparr>tileState := REVEALED\<rparr>)"
    if i: "i < length (m_aMineTiles s)" for i
  proof -
    have 1: "tile_at s' i = tile_at s i \<or>
         (i \<in> G \<and> tileState (tile_at s i) \<noteq> REVEALED \<and> tileMark (tile_at s i) \<noteq> FLAG \<and>
          tile_at s' i = (tile_at s i)\<lparr>tileState := REVEALED\<rparr>)"
      using a i by (simp add: reveals_def)
    have 2: "tile_at s'' i = tile_at s' i \<or>
         (i \<in> H \<and> tileState (tile_at s' i) \<noteq> REVEALED \<and> tileMark (tile_at s' i) \<noteq> FLAG \<and>
          tile_at s'' i = (tile_at s' i)\<lparr>tileState := REVEALED\<rparr>)"
      using b i fa(12) by (simp add: reveals_def)
    from 1 2 show ?thesis by auto
  qed
  have c: "count_revealed s \<le> count_revealed s''" using c1 c2 by simp
  show ?thesis
    unfolding reveals_def
    apply (intro conjI)
    using fa fb m t c r by simp_all
qed

lemma GetTileGrid_elem:
  "i \<in> set (GetTileGrid s x y r) \<Longrightarrow>
   \<exists>x' y'. x' < m_width s \<and> y' < m_height s \<and> i = u32 (x' + u32 (y' * m_width s))"
  by (auto simp: GetTileGrid_def split: if_splits)

lemma GetTileGrid_cong:
  "m_width t = m_width s \<Longrightarrow> m_height t = m_height s \<Longrightarrow> GetTileGrid t x y r = GetTileGrid s x y r"
  by (simp add: GetTileGrid_def cong: if_cong)

lemma index_bound:
  fixes w h :: nat
  assumes "x' < w" "y' < h"
  shows "x' + y' * w < w * h"
proof -
  have "x' + y' * w < w + y' * w" using assms by simp
  also have "\<dots> = Suc y' * w" by simp
  also have "\<dots> \<le> h * w" using assms by (intro mult_le_mono1) simp
  finally show ?thesis by (simp add: mult.commute)
qed

lemma grid_index_in_range:
  assumes "wf_field s" "i \<in> set (GetTileGrid s x y r)"
  shows "i < length (m_aMineTiles s)"
proof -
  from GetTileGrid_elem[OF assms(2)] obtain x' y'
    where b: "x' < m_width s" "y' < m_height s" and i: "i = u32 (x' + u32 (y' * m_width s))"
    by blast
  have lt: "x' + y' * m_width s < m_width s * m_height s" by (rule index_bound[OF b])
  have w: "m_width s * m_height s < 4294967296" and l: "length (m_aMineTiles s) = m_width s * m_height s"
    using assms(1) by (simp_all add: wf_field_def)
  have "y' * m_width s < 4294967296" using lt w by simp
  then have "i = x' + y' * m_width s" using i lt w by (simp add: u32_id)
  then show ?thesis using lt l by simp
qed

lemma reveal_index_reveals:
  assumes i: "i < length (m_aMineTiles s)" and n: "tileState (tile_at s i) \<noteq> REVEALED"
    and f: "tileMark (tile_at s i) \<noteq> FLAG"
  shows "reveals {i} s (reveal_index i s)" "count_revealed (reveal_index i s) = Suc (count_revealed s)"
    "tileState (tile_at (reveal_index i s) i) = REVEALED"
proof -
  show c: "count_revealed (reveal_index i s) = Suc (count_revealed s)"
    using i n by (simp add: count_revealed_def reveal_index_def SetTileState_def set_tile_def
        tile_at_def count_update_new)
  show "tileState (tile_at (reveal_index i s) i) = REVEALED"
    using i by (simp add: reveal_index_def SetTileState_def set_tile_def tile_at_def)
  have t: "\<forall>j < length (m_aMineTiles s).
         tile_at (reveal_index i s) j = tile_at s j \<or>
         (j \<in> {i} \<and> tileState (tile_at s j) \<noteq> REVEALED \<and> tileMark (tile_at s j) \<noteq> FLAG \<and>
          tile_at (reveal_index i s) j = (tile_at s j)\<lparr>tileState := REVEALED\<rparr>)"
    using i n f by (simp add: reveal_index_def SetTileState_def set_tile_def tile_at_def nth_list_update)
  show "reveals {i} s (reveal_index i s)"
    unfolding reveals_def
    apply (intro conjI)
    using t c by (simp_all add: reveal_index_def SetTileState_def set_tile_def)
qed

lemma flood_visit_spec:
  assumes i: "i < length (m_aMineTiles s)" and r: "m_cRevealedTiles s < 4294967296"
  shows "\<exists>p. fst (flood_visit i (q, s)) = q @ p \<and> set p \<subseteq> {i} \<and>
             reveals {i} s (snd (flood_visit i (q, s))) \<and> pushed_ok s (snd (flood_visit i (q, s))) p"
proof (cases "tileState (tile_at s i) \<noteq> REVEALED \<and> tileMark (tile_at s i) \<noteq> FLAG")
  case False
  then have "flood_visit i (q, s) = (q, s)" by (auto simp: flood_visit_def)
  then show ?thesis using r by (intro exI[of _ "[]"]) (simp add: reveals_refl pushed_ok_def)
next
  case True
  note R = reveal_index_reveals[OF i conjunct1[OF True] conjunct2[OF True]]
  have c: "tileContent (tile_at (reveal_index i s) i) = tileContent (tile_at s i)"
    using reveals_tile[OF R(1) i] by simp
  show ?thesis
  proof (cases "tileContent (tile_at s i) = EMPTY")
    case e: True
    have "flood_visit i (q, s) = (q @ [i], reveal_index i s)"
      using True e c by (simp add: flood_visit_def Let_def)
    then show ?thesis using R True e by (intro exI[of _ "[i]"]) (simp add: pushed_ok_def)
  next
    case e: False
    have "flood_visit i (q, s) = (q, reveal_index i s)"
      using True e c by (simp add: flood_visit_def Let_def)
    then show ?thesis using R by (intro exI[of _ "[]"]) (simp add: pushed_ok_def)
  qed
qed

lemma reveals_count_bound:
  "count_revealed s \<le> length (m_aMineTiles s)"
  by (simp add: count_revealed_def)

lemma reveals_revealed_lt:
  "reveals G s s' \<Longrightarrow> m_cRevealedTiles s' < 4294967296"
  by (simp add: reveals_def u32_def)

lemma pushed_ok_Nil: "reveals G s s' \<Longrightarrow> pushed_ok s s' []"
  by (simp add: pushed_ok_def reveals_def)

lemma pushed_ok_append:
  assumes a: "reveals G s s1" and b: "reveals H s1 s2"
    and p1: "pushed_ok s s1 p1" and p2: "pushed_ok s1 s2 p2"
    and r1: "\<forall>j \<in> set p1. j < length (m_aMineTiles s)"
    and r2: "\<forall>j \<in> set p2. j < length (m_aMineTiles s)"
  shows "pushed_ok s s2 (p1 @ p2)"
proof -
  have l: "length (m_aMineTiles s1) = length (m_aMineTiles s)" using a by (simp add: reveals_def)
  have d: "set p1 \<inter> set p2 = {}"
  proof -
    have "j \<notin> set p2" if "j \<in> set p1" for j
      using that p1 p2 by (auto simp: pushed_ok_def)
    then show ?thesis by auto
  qed
  have x1: "tileState (tile_at s j) \<noteq> REVEALED \<and> tileState (tile_at s2 j) = REVEALED \<and>
         tileContent (tile_at s j) = EMPTY" if j: "j \<in> set p1" for j
  proof -
    have jl: "j < length (m_aMineTiles s1)" using r1 j l by simp
    show ?thesis using p1 j reveals_tile[OF b jl] by (auto simp: pushed_ok_def)
  qed
  have x2: "tileState (tile_at s j) \<noteq> REVEALED \<and> tileState (tile_at s2 j) = REVEALED \<and>
         tileContent (tile_at s j) = EMPTY" if j: "j \<in> set p2" for j
  proof -
    have jl: "j < length (m_aMineTiles s)" using r2 j by simp
    show ?thesis using p2 j reveals_tile[OF a jl] by (auto simp: pushed_ok_def)
  qed
  have c: "length (p1 @ p2) + count_revealed s \<le> count_revealed s2"
    using p1 p2 by (simp add: pushed_ok_def)
  have dd: "distinct (p1 @ p2)" using p1 p2 d by (simp add: pushed_ok_def)
  show ?thesis unfolding pushed_ok_def using c dd x1 x2 by auto
qed

lemma flood_fold_spec:
  assumes "\<forall>i \<in> set g. i < length (m_aMineTiles s)" and "m_cRevealedTiles s < 4294967296"
  shows "\<exists>p. fst (fold flood_visit g (q, s)) = q @ p \<and> set p \<subseteq> set g \<and>
             reveals (set g) s (snd (fold flood_visit g (q, s))) \<and>
             pushed_ok s (snd (fold flood_visit g (q, s))) p"
  using assms
proof (induction g arbitrary: q s)
  case Nil
  then show ?case by (intro exI[of _ "[]"]) (simp add: reveals_refl pushed_ok_def)
next
  case (Cons i g)
  have i: "i < length (m_aMineTiles s)" using Cons.prems by simp
  from flood_visit_spec[OF i Cons.prems(2), of q] obtain p1 where
    v: "fst (flood_visit i (q, s)) = q @ p1" "set p1 \<subseteq> {i}"
      "reveals {i} s (snd (flood_visit i (q, s)))" "pushed_ok s (snd (flood_visit i (q, s))) p1"
    by blast
  define s1 where "s1 = snd (flood_visit i (q, s))"
  have fv: "flood_visit i (q, s) = (q @ p1, s1)" using v(1) by (simp add: s1_def prod_eq_iff)
  have a: "reveals {i} s s1" and pa: "pushed_ok s s1 p1" using v by (simp_all add: s1_def)
  have l1: "length (m_aMineTiles s1) = length (m_aMineTiles s)" using a by (simp add: reveals_def)
  have g1: "\<forall>i \<in> set g. i < length (m_aMineTiles s1)" using Cons.prems l1 by simp
  from Cons.IH[OF g1 reveals_revealed_lt[OF a], of "q @ p1"] obtain p2 where
    w: "fst (fold flood_visit g (q @ p1, s1)) = (q @ p1) @ p2" "set p2 \<subseteq> set g"
      "reveals (set g) s1 (snd (fold flood_visit g (q @ p1, s1)))"
      "pushed_ok s1 (snd (fold flood_visit g (q @ p1, s1))) p2"
    by blast
  have f: "fold flood_visit (i # g) (q, s) = fold flood_visit g (q @ p1, s1)" by (simp add: fv)
  have rr: "reveals (set (i # g)) s (snd (fold flood_visit g (q @ p1, s1)))"
    using reveals_trans[OF a w(3)] by simp
  have r1: "\<forall>j \<in> set p1. j < length (m_aMineTiles s)" using v(2) i by auto
  have r2: "\<forall>j \<in> set p2. j < length (m_aMineTiles s)" using w(2) Cons.prems(1) by auto
  have pp: "pushed_ok s (snd (fold flood_visit g (q @ p1, s1))) (p1 @ p2)"
    by (rule pushed_ok_append[OF a w(3) pa w(4) r1 r2])
  show ?case
    unfolding f using w(1) v(2) w(2) rr pp by (intro exI[of _ "p1 @ p2"]) auto
qed

lemma reveals_wf: "wf_field s \<Longrightarrow> reveals G s s' \<Longrightarrow> wf_field s'"
  by (simp add: wf_field_def reveals_def u32_def)

lemma flood_body_spec:
  assumes wf: "wf_field s0" and inv: "flood_inv s0 (q, t)" and ne: "q \<noteq> []"
  shows "\<exists>p t'. flood_body (q, t) = (tl q @ p, t') \<and> flood_pushed (q, t) = p \<and>
          flood_inv s0 (tl q @ p, t') \<and>
          flood_measure (tl q @ p, t') < flood_measure (q, t) \<and>
          reveals (near_empty s0) t t' \<and> pushed_ok t t' p \<and>
          (\<forall>j \<in> set p. j < length (m_aMineTiles s0))"
proof -
  have r0: "reveals (near_empty s0) s0 t"
    and q0: "\<forall>j \<in> set q. j < length (m_aMineTiles s0) \<and> tileContent (tile_at s0 j) = EMPTY"
    using inv by (simp_all add: flood_inv_def)
  note fr = reveals_frame[OF r0]
  have wft: "wf_field t" by (rule reveals_wf[OF wf r0])
  define front where "front = hd q"
  define g where "g = GetTileGrid t (front mod m_width t) (front div m_width t) 1"
  have fq: "front \<in> set q" using ne by (simp add: front_def)
  have g0: "g = GetTileGrid s0 (front mod m_width s0) (front div m_width s0) 1"
    unfolding g_def fr(1) by (rule GetTileGrid_cong[OF fr(1) fr(2)])
  have gne: "set g \<subseteq> near_empty s0"
    unfolding near_empty_def g0 using q0 fq by auto
  have gr: "\<forall>i \<in> set g. i < length (m_aMineTiles t)"
    unfolding g_def using grid_index_in_range[OF wft] by blast
  have rt: "m_cRevealedTiles t < 4294967296" by (rule reveals_revealed_lt[OF r0])
  from flood_fold_spec[OF gr rt, of q] obtain p where
    p: "fst (fold flood_visit g (q, t)) = q @ p" "set p \<subseteq> set g"
      "reveals (set g) t (snd (fold flood_visit g (q, t)))"
      "pushed_ok t (snd (fold flood_visit g (q, t))) p"
    by blast
  define t' where "t' = snd (fold flood_visit g (q, t))"
  have fo: "fold flood_visit g (q, t) = (q @ p, t')" using p(1) by (simp add: t'_def prod_eq_iff)
  have fb: "flood_body (q, t) = (tl q @ p, t')"
    using ne fo by (simp add: flood_body_def Let_def front_def[symmetric] g_def[symmetric])
  have fp: "flood_pushed (q, t) = p"
    using fo by (simp add: flood_pushed_def front_def[symmetric] g_def[symmetric])
  have r1: "reveals (near_empty s0) t t'"
    using reveals_mono[OF p(3) gne] by (simp add: t'_def)
  have r2: "reveals (near_empty s0) s0 t'"
    using reveals_trans[OF r0 r1] by simp
  have po: "pushed_ok t t' p" using p(4) by (simp add: t'_def)
  have pl: "\<forall>j \<in> set p. j < length (m_aMineTiles s0)"
    using p(2) gr fr(12) by auto
  have pe: "tileContent (tile_at s0 j) = EMPTY" if "j \<in> set p" for j
  proof -
    have "j < length (m_aMineTiles s0)" using pl that by simp
    from reveals_tile[OF r0 this] have "tileContent (tile_at t j) = tileContent (tile_at s0 j)" by simp
    then show ?thesis using po that by (simp add: pushed_ok_def)
  qed
  have tq: "set (tl q) \<subseteq> set q" using ne by (cases q) auto
  have inv': "flood_inv s0 (tl q @ p, t')"
    unfolding flood_inv_def using r2 q0 tq pl pe by auto
  have c1: "length p + count_revealed t \<le> count_revealed t'" using po by (simp add: pushed_ok_def)
  have c2: "count_revealed t' \<le> length (m_aMineTiles t')" by (rule reveals_count_bound)
  have l: "length (m_aMineTiles t') = length (m_aMineTiles t)" using r1 by (simp add: reveals_def)
  have lq: "0 < length q" using ne by simp
  have lt: "length (tl q @ p) = length q - 1 + length p" by simp
  have m: "flood_measure (tl q @ p, t') < flood_measure (q, t)"
    unfolding flood_measure_def prod.case lt l using c1 c2[unfolded l] lq by arith
  show ?thesis using fb fp inv' m r1 po pl by blast
qed

lemma flood_inv_init:
  assumes "wf_field s0" "\<forall>j \<in> set q. j < length (m_aMineTiles s0) \<and> tileContent (tile_at s0 j) = EMPTY"
  shows "flood_inv s0 (q, s0)"
  using assms by (simp add: flood_inv_def reveals_refl wf_field_def)

lemma flood_while_spec:
  assumes wf: "wf_field s0"
    and q0: "\<forall>j \<in> set q. j < length (m_aMineTiles s0) \<and> tileContent (tile_at s0 j) = EMPTY"
  shows "fst (while flood_cond flood_body (q, s0)) = [] \<and>
         reveals (near_empty s0) s0 (snd (while flood_cond flood_body (q, s0)))"
proof (rule while_rule[where P = "flood_inv s0" and r = "measure flood_measure"])
  show "flood_inv s0 (q, s0)" by (rule flood_inv_init[OF wf q0])
next
  fix st assume a: "flood_inv s0 st" "flood_cond st"
  obtain q' t where st: "st = (q', t)" by (cases st)
  have ne: "q' \<noteq> []" using a(2) by (simp add: st flood_cond_def)
  from flood_body_spec[OF wf a(1)[unfolded st] ne]
  show "flood_inv s0 (flood_body st)" unfolding st by auto
next
  fix st assume a: "flood_inv s0 st" "\<not> flood_cond st"
  then show "fst st = [] \<and> reveals (near_empty s0) s0 (snd st)"
    by (cases st) (simp add: flood_cond_def flood_inv_def)
next
  show "wf (measure flood_measure)" by simp
next
  fix st assume a: "flood_inv s0 st" "flood_cond st"
  obtain q' t where st: "st = (q', t)" by (cases st)
  have ne: "q' \<noteq> []" using a(2) by (simp add: st flood_cond_def)
  from flood_body_spec[OF wf a(1)[unfolded st] ne]
  show "(flood_body st, st) \<in> measure flood_measure" unfolding st by auto
qed

lemma flood_terminates:
  assumes wf: "wf_field s0"
    and q0: "\<forall>j \<in> set q. j < length (m_aMineTiles s0) \<and> tileContent (tile_at s0 j) = EMPTY"
  shows "\<exists>r. while_option flood_cond flood_body (q, s0) = Some r"
proof (rule measure_while_option_Some[where P = "flood_inv s0" and f = flood_measure])
  show "flood_inv s0 (q, s0)" by (rule flood_inv_init[OF wf q0])
next
  fix st assume a: "flood_inv s0 st" "flood_cond st"
  obtain q' t where st: "st = (q', t)" by (cases st)
  have ne: "q' \<noteq> []" using a(2) by (simp add: st flood_cond_def)
  from flood_body_spec[OF wf a(1)[unfolded st] ne]
  show "flood_inv s0 (flood_body st) \<and> flood_measure (flood_body st) < flood_measure st"
    unfolding st by auto
qed

lemma SetTileRevealed_noop:
  "tileState (tile_xy s x y) = REVEALED \<or> tileMark (tile_xy s x y) = FLAG \<Longrightarrow> SetTileRevealed x y s = s"
  by (auto simp: SetTileRevealed_def)

lemma tile_at_lost [simp]: "tile_at (s\<lparr>m_bGameLost := b\<rparr>) i = tile_at s i"
  by (simp add: tile_at_def)

lemma count_revealed_lost [simp]: "count_revealed (s\<lparr>m_bGameLost := b\<rparr>) = count_revealed s"
  by (simp add: count_revealed_def)

lemma xy_index:
  assumes "wf_field s" "x < m_width s" "y < m_height s"
  shows "x + y * m_width s < length (m_aMineTiles s)" "u32 (x + u32 (y * m_width s)) = x + y * m_width s"
proof -
  have lt: "x + y * m_width s < m_width s * m_height s" by (rule index_bound[OF assms(2,3)])
  have w: "m_width s * m_height s < 4294967296" and l: "length (m_aMineTiles s) = m_width s * m_height s"
    using assms(1) by (simp_all add: wf_field_def)
  show "x + y * m_width s < length (m_aMineTiles s)" using lt l by simp
  have "y * m_width s < 4294967296" using lt w by simp
  then show "u32 (x + u32 (y * m_width s)) = x + y * m_width s" using lt w by (simp add: u32_id)
qed

text \<open>What one call of SetTileRevealed does to a well-formed field.\<close>

lemma SetTileRevealed_spec:
  assumes wf: "wf_field s" and x: "x < m_width s" and y: "y < m_height s"
  defines "i \<equiv> x + y * m_width s"
  defines "fresh \<equiv> tileState (tile_at s i) \<noteq> REVEALED \<and> tileMark (tile_at s i) \<noteq> FLAG"
  shows "\<exists>t. reveals (insert i (near_empty s)) s t \<and>
             (fresh \<longrightarrow> tileState (tile_at t i) = REVEALED) \<and>
             (\<not> fresh \<longrightarrow> t = s) \<and>
             SetTileRevealed x y s =
               t\<lparr>m_bGameLost := (m_bGameLost s \<or> (fresh \<and> tileContent (tile_at s i) = MINE))\<rparr>"
proof (cases fresh)
  case False
  then have "SetTileRevealed x y s = s"
    by (auto simp: fresh_def i_def SetTileRevealed_def tile_xy_def)
  moreover have "reveals (insert i (near_empty s)) s s"
    using wf by (simp add: reveals_refl wf_field_def)
  ultimately show ?thesis using False by (intro exI[of _ s]) simp
next
  case True
  note xi = xy_index[OF wf x y, folded i_def]
  have f1: "tileState (tile_at s i) \<noteq> REVEALED" and f2: "tileMark (tile_at s i) \<noteq> FLAG"
    using True by (simp_all add: fresh_def)
  define s1 where "s1 = reveal_index i s"
  note R = reveal_index_reveals[OF xi(1) f1 f2, folded s1_def]
  have r1: "reveals (insert i (near_empty s)) s s1" by (rule reveals_mono[OF R(1)]) simp
  have c1: "tileContent (tile_at s1 i) = tileContent (tile_at s i)"
    using reveals_tile[OF R(1) xi(1)] by simp
  have w1: "m_width s1 = m_width s" using R(1) by (simp add: reveals_def)
  have lost1: "m_bGameLost s1 = m_bGameLost s" using R(1) by (simp add: reveals_def)
  have unf: "SetTileRevealed x y s =
      (if tileContent (tile_at s i) = MINE then s1\<lparr>m_bGameLost := True\<rparr>
       else if tileContent (tile_at s i) = EMPTY
       then snd (while flood_cond flood_body ([i], s1)) else s1)"
    using f1 f2 c1 w1 xi(2)
    by (simp add: SetTileRevealed_def tile_xy_def i_def[symmetric] s1_def[symmetric] Let_def)
  show ?thesis
  proof (cases "tileContent (tile_at s i) = MINE")
    case m: True
    show ?thesis using unf m r1 R(3) True by (intro exI[of _ s1]) simp
  next
    case m: False
    have keep: "t\<lparr>m_bGameLost := (m_bGameLost s \<or> (fresh \<and> tileContent (tile_at s i) = MINE))\<rparr> = t"
      if "m_bGameLost t = m_bGameLost s" for t
      using that m by simp
    show ?thesis
    proof (cases "tileContent (tile_at s i) = EMPTY")
      case e: False
      show ?thesis using unf m e r1 R(3) True keep[OF lost1] by (intro exI[of _ s1]) simp
    next
      case e: True
      have wf1: "wf_field s1" by (rule reveals_wf[OF wf R(1)])
      have l1: "length (m_aMineTiles s1) = length (m_aMineTiles s)" using R(1) by (simp add: reveals_def)
      have q0: "\<forall>j \<in> set [i]. j < length (m_aMineTiles s1) \<and> tileContent (tile_at s1 j) = EMPTY"
        using xi(1) l1 c1 e by simp
      define t where "t = snd (while flood_cond flood_body ([i], s1))"
      from flood_while_spec[OF wf1 q0] have rt: "reveals (near_empty s1) s1 t"
        by (simp add: t_def)
      have ne: "near_empty s1 \<subseteq> insert i (near_empty s)"
      proof
        fix k assume "k \<in> near_empty s1"
        then obtain j where j: "j < length (m_aMineTiles s1)" "tileContent (tile_at s1 j) = EMPTY"
          "k \<in> set (GetTileGrid s1 (j mod m_width s1) (j div m_width s1) 1)"
          by (auto simp: near_empty_def)
        have jl: "j < length (m_aMineTiles s)" using j(1) l1 by simp
        have "tileContent (tile_at s j) = EMPTY" using reveals_tile[OF R(1) jl] j(2) by simp
        moreover have "k \<in> set (GetTileGrid s (j mod m_width s) (j div m_width s) 1)"
          using j(3) GetTileGrid_cong[OF reveals_frame(1)[OF R(1)] reveals_frame(2)[OF R(1)]] w1 by simp
        ultimately show "k \<in> insert i (near_empty s)" using jl by (auto simp: near_empty_def)
      qed
      have rr: "reveals (insert i (near_empty s)) s t"
        using reveals_trans[OF r1 reveals_mono[OF rt ne]] by simp
      have l1': "i < length (m_aMineTiles s1)" using xi(1) l1 by simp
      have st: "tileState (tile_at t i) = REVEALED"
        using reveals_tile[OF rt l1'] R(3) by simp
      have lt: "m_bGameLost t = m_bGameLost s" using rr by (simp add: reveals_def)
      have "SetTileRevealed x y s = t" using unf m e by (simp add: t_def)
      then show ?thesis using rr st True keep[OF lt] by (intro exI[of _ t]) simp
    qed
  qed
qed

lemma flood_log_erase:
  "map_option snd (while_option (flood_cond \<circ> snd) flood_log_body st) =
   while_option flood_cond flood_body (snd st)"
  by (rule while_option_commute) (auto simp: flood_log_body_def)

lemma log_inv_step:
  assumes wf: "wf_field s0" and inv: "log_inv s0 st" and c: "(flood_cond \<circ> snd) st"
  shows "log_inv s0 (flood_log_body st) \<and>
         (flood_measure \<circ> snd) (flood_log_body st) < (flood_measure \<circ> snd) st"
proof -
  obtain entered q t where st: "st = (entered, q, t)" by (cases st)
  have fi: "flood_inv s0 (q, t)" and d: "distinct entered"
    and e: "\<forall>i \<in> set entered. i < length (m_aMineTiles s0) \<and> tileState (tile_at t i) = REVEALED"
    using inv by (simp_all add: st log_inv_def)
  have ne: "q \<noteq> []" using c by (simp add: st flood_cond_def)
  from flood_body_spec[OF wf fi ne] obtain p t' where
    b: "flood_body (q, t) = (tl q @ p, t')" "flood_pushed (q, t) = p"
      "flood_inv s0 (tl q @ p, t')" "flood_measure (tl q @ p, t') < flood_measure (q, t)"
      "reveals (near_empty s0) t t'" "pushed_ok t t' p"
      "\<forall>j \<in> set p. j < length (m_aMineTiles s0)"
    by blast
  have r0: "reveals (near_empty s0) s0 t" using fi by (simp add: flood_inv_def)
  have l: "length (m_aMineTiles t) = length (m_aMineTiles s0)" using r0 by (simp add: reveals_def)
  have step: "flood_log_body (entered, q, t) = (entered @ p, tl q @ p, t')"
    by (simp add: flood_log_body_def b(1,2))
  have dis: "set entered \<inter> set p = {}"
    using e b(6) by (auto simp: pushed_ok_def)
  have d': "distinct (entered @ p)" using d b(6) dis by (simp add: pushed_ok_def)
  have e1: "tileState (tile_at t' i) = REVEALED" if "i \<in> set entered" for i
  proof -
    have "i < length (m_aMineTiles t)" using e that l by simp
    from reveals_tile[OF b(5) this] show ?thesis using e that by simp
  qed
  have e2: "tileState (tile_at t' i) = REVEALED" if "i \<in> set p" for i
    using b(6) that by (simp add: pushed_ok_def)
  have "log_inv s0 (entered @ p, tl q @ p, t')"
    unfolding log_inv_def using b(3) d' e e1 e2 b(7) by auto
  then show ?thesis using b(4) by (simp add: step st)
qed

lemma flood_log_spec:
  assumes wf: "wf_field s0" and init: "log_inv s0 (entered, q, s0)"
  shows "\<exists>entered' t. while_option (flood_cond \<circ> snd) flood_log_body (entered, q, s0) = Some (entered', [], t) \<and>
           distinct entered' \<and> (\<forall>i \<in> set entered'. i < length (m_aMineTiles s0)) \<and>
           while flood_cond flood_body (q, s0) = ([], t)"
proof -
  from measure_while_option_Some[where P = "log_inv s0" and b = "flood_cond \<circ> snd"
      and c = flood_log_body and f = "flood_measure \<circ> snd", OF log_inv_step[OF wf] init]
  obtain r where r: "while_option (flood_cond \<circ> snd) flood_log_body (entered, q, s0) = Some r"
    by blast
  obtain entered' q' t where rr: "r = (entered', q', t)" by (cases r)
  have inv: "log_inv s0 r"
    by (rule while_option_rule[where P = "log_inv s0", OF _ r init]) (simp add: log_inv_step[OF wf])
  have "\<not> (flood_cond \<circ> snd) r" by (rule while_option_stop[OF r])
  then have q': "q' = []" by (simp add: rr flood_cond_def)
  have "while_option flood_cond flood_body (q, s0) = Some (q', t)"
    using flood_log_erase[of "(entered, q, s0)"] r by (simp add: rr)
  then have w: "while flood_cond flood_body (q, s0) = ([], t)" by (simp add: while_def q')
  show ?thesis using r inv w by (auto simp: rr q' log_inv_def)
qed

lemma card_le_of_distinct_bounded:
  assumes "distinct xs" "\<forall>i \<in> set xs. i < n"
  shows "length xs \<le> n"
proof -
  have "card (set xs) \<le> card {..<n}" using assms(2) by (intro card_mono) auto
  then show ?thesis using assms(1) by (simp add: distinct_card)
qed

lemma upto_m1_1: "[- 1..1] = [- 1, 0, 1 :: int]"
  by (simp add: upto.simps)

lemma upto_0_0: "[- 0..0] = [0 :: int]"
  by (simp add: upto.simps)

lemma field_2x1_eq: "field_2x1 = \<lparr>m_width = 2, m_height = 1, m_cTiles = 2, m_cMines = 0,
          m_cRevealedTiles = 0, m_cFlaggedTiles = 0,
          m_bMouseTracking = False, m_bGameLost = False,
          m_bQuestionMarksEnabled = False,
          m_bChording = False, m_bLRHeldAfterChord = False,
          m_lastGridPos = (0,0),
          m_aMineTiles = [MineTile_default, MineTile_default]\<rparr>"
  by (simp add: field_2x1_def MinefieldWindow_ctor_def u32_def numeral_2_eq_2)

section \<open>The flood terminates (C8)\<close>

text \<open>
  Claim C8. For every well-formed field and every position \<open>(x, y)\<close> in the grid, the
  breadth-first loop inside \<^verbatim>\<open>SetTileRevealed(x, y)\<close> terminates: the logged run
  returns \<open>Some\<close>, with the very window that \<open>SetTileRevealed\<close> returns. Every cell
  enters the queue at most once: the log of the cells that entered is distinct, so it
  is no longer than the number of tiles.
\<close>

theorem flood_terminates_each_cell_once:
  assumes wf: "wf_field s" and x: "x < m_width s" and y: "y < m_height s"
  shows "\<exists>entered. SetTileRevealed_logged x y s = Some (entered, SetTileRevealed x y s) \<and>
           distinct entered \<and> length entered \<le> m_cTiles s"
proof -
  define i where "i = x + y * m_width s"
  note xi = xy_index[OF wf x y, folded i_def]
  show ?thesis
  proof (cases "tileState (tile_at s i) \<noteq> REVEALED \<and> tileMark (tile_at s i) \<noteq> FLAG")
    case False
    then show ?thesis
      by (auto simp: SetTileRevealed_logged_def SetTileRevealed_def tile_xy_def i_def)
  next
    case True
    then have f1: "tileState (tile_at s i) \<noteq> REVEALED" and f2: "tileMark (tile_at s i) \<noteq> FLAG"
      by simp_all
    define s1 where "s1 = reveal_index i s"
    note R = reveal_index_reveals[OF xi(1) f1 f2, folded s1_def]
    have c1: "tileContent (tile_at s1 i) = tileContent (tile_at s i)"
      using reveals_tile[OF R(1) xi(1)] by simp
    have w1: "m_width s1 = m_width s" using R(1) by (simp add: reveals_def)
    have l1: "length (m_aMineTiles s1) = length (m_aMineTiles s)" using R(1) by (simp add: reveals_def)
    have wf1: "wf_field s1" by (rule reveals_wf[OF wf R(1)])
    have lt: "length (m_aMineTiles s) = m_cTiles s" using wf by (simp add: wf_field_def)
    show ?thesis
    proof (cases "tileContent (tile_at s i) = EMPTY")
      case False
      then show ?thesis using True c1 w1
        by (auto simp: SetTileRevealed_logged_def SetTileRevealed_def tile_xy_def
            i_def[symmetric] s1_def[symmetric] Let_def)
    next
      case e: True
      have q0: "\<forall>j \<in> set [i]. j < length (m_aMineTiles s1) \<and> tileContent (tile_at s1 j) = EMPTY"
        using xi(1) l1 c1 e by simp
      have init: "log_inv s1 ([i], [i], s1)"
        unfolding log_inv_def using flood_inv_init[OF wf1 q0] xi(1) l1 R(3) by simp
      from flood_log_spec[OF wf1 init] obtain entered t where
        r: "while_option (flood_cond \<circ> snd) flood_log_body ([i], [i], s1) = Some (entered, [], t)"
          "distinct entered" "\<forall>i \<in> set entered. i < length (m_aMineTiles s1)"
          "while flood_cond flood_body ([i], s1) = ([], t)"
        by blast
      have a: "SetTileRevealed_logged x y s = Some (entered, t)"
        using True e c1 w1 xi(2) r(1)
        by (simp add: SetTileRevealed_logged_def tile_xy_def i_def[symmetric] s1_def[symmetric] Let_def)
      have b: "SetTileRevealed x y s = t"
        using True e c1 w1 xi(2) r(4)
        by (simp add: SetTileRevealed_def tile_xy_def i_def[symmetric] s1_def[symmetric] Let_def)
      have "length entered \<le> m_cTiles s"
        using card_le_of_distinct_bounded[OF r(2), of "m_cTiles s"] r(3) l1 lt by simp
      then show ?thesis using a b r(2) by simp
    qed
  qed
qed

theorem flood_terminates_each_cell_once_witness:
  "wf_field field_2x1 \<and> 0 < m_width field_2x1 \<and> 0 < m_height field_2x1 \<and>
   (\<exists>entered. SetTileRevealed_logged 0 0 field_2x1 = Some (entered, SetTileRevealed 0 0 field_2x1) \<and>
           distinct entered \<and> length entered \<le> m_cTiles field_2x1)"
  using flood_terminates_each_cell_once[of field_2x1 0 0]
  by (simp add: field_2x1_eq wf_field_def)

section \<open>Revealing twice (C9)\<close>

text \<open>
  Claim C9. If the tile at \<open>(x, y)\<close> is already \<^verbatim>\<open>REVEALED\<close> or carries a
  \<^verbatim>\<open>FLAG\<close>, \<^verbatim>\<open>SetTileRevealed(x, y)\<close> returns the window unchanged: no tile and no
  counter moves. In particular, on a well-formed field and a position in the grid, a
  second call on the same cell changes nothing that the first call left.
\<close>

theorem SetTileRevealed_idempotent:
  "(tileState (tile_xy s x y) = REVEALED \<or> tileMark (tile_xy s x y) = FLAG \<longrightarrow>
      SetTileRevealed x y s = s) \<and>
   (wf_field s \<and> x < m_width s \<and> y < m_height s \<longrightarrow>
      SetTileRevealed x y (SetTileRevealed x y s) = SetTileRevealed x y s)"
proof (intro conjI impI)
  assume "tileState (tile_xy s x y) = REVEALED \<or> tileMark (tile_xy s x y) = FLAG"
  then show "SetTileRevealed x y s = s" by (rule SetTileRevealed_noop)
next
  assume a: "wf_field s \<and> x < m_width s \<and> y < m_height s"
  define i where "i = x + y * m_width s"
  define fresh where "fresh = (tileState (tile_at s i) \<noteq> REVEALED \<and> tileMark (tile_at s i) \<noteq> FLAG)"
  from SetTileRevealed_spec[of s x y] a obtain t where
    t: "reveals (insert i (near_empty s)) s t" "fresh \<longrightarrow> tileState (tile_at t i) = REVEALED"
      "\<not> fresh \<longrightarrow> t = s"
      "SetTileRevealed x y s = t\<lparr>m_bGameLost := (m_bGameLost s \<or> (fresh \<and> tileContent (tile_at s i) = MINE))\<rparr>"
    unfolding i_def fresh_def by blast
  have w: "m_width t = m_width s" using t(1) by (simp add: reveals_def)
  show "SetTileRevealed x y (SetTileRevealed x y s) = SetTileRevealed x y s"
  proof (cases fresh)
    case True
    have "tileState (tile_xy (SetTileRevealed x y s) x y) = REVEALED"
      using t(2) True by (simp add: t(4) tile_xy_def w i_def)
    then show ?thesis by (simp add: SetTileRevealed_noop)
  next
    case False
    then have "SetTileRevealed x y s = s" using t(3,4) by simp
    then show ?thesis by simp
  qed
qed


theorem SetTileRevealed_idempotent_witness:
  "tileMark (tile_xy field_flagged 0 0) = FLAG \<and>
   SetTileRevealed 0 0 field_flagged = field_flagged \<and>
   wf_field field_2x1 \<and> 1 < m_width field_2x1 \<and> 0 < m_height field_2x1 \<and>
   SetTileRevealed 1 0 (SetTileRevealed 1 0 field_2x1) = SetTileRevealed 1 0 field_2x1"
  using SetTileRevealed_idempotent[of field_flagged 0 0] SetTileRevealed_idempotent[of field_2x1 1 0]
  by (simp add: field_2x1_eq field_flagged_def wf_field_def tile_xy_def tile_at_def)

section \<open>The invariant of the reachable windows\<close>

text \<open>
  \<open>field_inv\<close> holds of every reachable window: the field is well-formed, both counters
  count, flagged tiles are hidden, \<^verbatim>\<open>m_bGameLost\<close> says that a mine is revealed, and no
  tile of the grid around an \<^verbatim>\<open>EMPTY\<close> tile is a mine. Previews, question marks and
  the interaction flags are \<open>benign\<close>: they keep all of it.
\<close>

lemma filter_count_cong:
  "length xs = length ys \<Longrightarrow> \<forall>i < length xs. P (xs ! i) = Q (ys ! i) \<Longrightarrow>
   length (filter P xs) = length (filter Q ys)"
proof (induction xs ys rule: list_induct2)
  case Nil
  then show ?case by simp
next
  case (Cons x xs y ys)
  have h: "P x = Q y" using Cons.prems by (auto dest: spec[of _ 0])
  have "\<forall>i < length xs. P (xs ! i) = Q (ys ! i)"
  proof (intro allI impI)
    fix i assume "i < length xs"
    then show "P (xs ! i) = Q (ys ! i)" using Cons.prems by (auto dest: spec[of _ "Suc i"])
  qed
  then show ?case using Cons.IH h by simp
qed

lemma tile_step_ok_refl [simp]: "tile_step_ok t t"
  by (simp add: tile_step_ok_def)

lemma tile_step_ok_trans: "tile_step_ok a b \<Longrightarrow> tile_step_ok b c \<Longrightarrow> tile_step_ok a c"
  by (auto simp: tile_step_ok_def)

lemma benign_refl [simp]: "benign s s"
  by (simp add: benign_def)

lemma benign_trans: "benign a b \<Longrightarrow> benign b c \<Longrightarrow> benign a c"
  unfolding benign_def by (auto intro: tile_step_ok_trans)

lemma near_empty_cong:
  assumes "m_width s' = m_width s" "m_height s' = m_height s"
    "length (m_aMineTiles s') = length (m_aMineTiles s)"
    "\<forall>i < length (m_aMineTiles s). tileContent (tile_at s' i) = tileContent (tile_at s i)"
  shows "near_empty s' = near_empty s"
  unfolding near_empty_def using assms GetTileGrid_cong[OF assms(1,2)] by auto

lemma benign_inv:
  assumes inv: "field_inv s" and b: "benign s s'"
  shows "field_inv s'"
proof -
  have l: "length (m_aMineTiles s') = length (m_aMineTiles s)" using b by (simp add: benign_def)
  have t: "tile_step_ok (tile_at s i) (tile_at s' i)" if "i < length (m_aMineTiles s)" for i
    using b that by (simp add: benign_def)
  have wf: "wf_field s'" using inv b by (simp add: field_inv_def wf_field_def benign_def)
  have cr: "count_revealed s' = count_revealed s"
    unfolding count_revealed_def using l t
    by (intro filter_count_cong) (auto simp: tile_step_ok_def tile_at_def)
  have cf: "count_flagged s' = count_flagged s"
    unfolding count_flagged_def using l t
    by (intro filter_count_cong) (auto simp: tile_step_ok_def tile_at_def)
  have fh: "flags_hidden s'"
    using inv l t unfolding field_inv_def flags_hidden_def tile_step_ok_def by metis
  have rm: "revealed_mine s' = revealed_mine s"
    unfolding revealed_mine_def l using t unfolding tile_step_ok_def by metis
  have ne: "near_empty s' = near_empty s"
    using b t by (intro near_empty_cong) (auto simp: benign_def tile_step_ok_def)
  have no: "numbers_ok s'"
    using inv t unfolding field_inv_def numbers_ok_def ne l tile_step_ok_def by metis
  show ?thesis
    unfolding field_inv_def using wf cr cf fh rm no inv b
    by (simp add: field_inv_def benign_def)
qed

lemma benign_set_tile:
  assumes "i < length (m_aMineTiles s) \<Longrightarrow> tile_step_ok (tile_at s i) t"
  shows "benign s (set_tile i t s)"
proof -
  have "tile_step_ok (tile_at s j) (tile_at (set_tile i t s) j)"
    if j: "j < length (m_aMineTiles s)" for j
  proof (cases "j = i")
    case True
    then show ?thesis using assms j by (simp add: set_tile_def tile_at_def)
  next
    case False
    then show ?thesis by (simp add: set_tile_def tile_at_def)
  qed
  then show ?thesis by (simp add: benign_def set_tile_def)
qed

lemma benign_click_tile: "benign s (click_tile i s)"
  unfolding click_tile_def SetTileState_def
  by (auto intro!: benign_set_tile simp: tile_step_ok_def)

lemma benign_unclick_tile: "benign s (unclick_tile i s)"
  unfolding unclick_tile_def SetTileState_def
  by (auto intro!: benign_set_tile simp: tile_step_ok_def)

lemma benign_clear_question_mark: "benign s (clear_question_mark x y s)"
  unfolding clear_question_mark_def SetTileMark_def tile_xy_def
  by (auto intro!: benign_set_tile simp: tile_step_ok_def)

lemma benign_fold:
  assumes "\<And>x s. benign s (f x s)"
  shows "benign s (fold f xs s)"
proof (induction xs arbitrary: s)
  case Nil
  show ?case by simp
next
  case (Cons x xs)
  show ?case using benign_trans[OF assms[of s x] Cons.IH[of "f x s"]] by simp
qed

lemma benign_flags:
  "benign s (s\<lparr>m_bChording := a\<rparr>)" "benign s (s\<lparr>m_bLRHeldAfterChord := b\<rparr>)"
  "benign s (s\<lparr>m_bMouseTracking := c\<rparr>)" "benign s (s\<lparr>m_lastGridPos := p\<rparr>)"
  "benign s (s\<lparr>m_bQuestionMarksEnabled := q\<rparr>)"
  by (simp_all add: benign_def tile_at_def)

lemma benign_BeginChord: "benign s (BeginChord x y s)"
  unfolding BeginChord_def
  by (rule benign_trans[OF benign_fold[of click_tile, OF benign_click_tile] benign_flags(1)])

lemma benign_MovePos: "benign s (MovePos oldPos newPos r force s)"
  unfolding MovePos_def Let_def
  by (auto intro: benign_trans[OF benign_fold[of unclick_tile, OF benign_unclick_tile]
        benign_fold[of click_tile, OF benign_click_tile]])

lemma benign_ToggleQuestionMarkUsage: "benign s (ToggleQuestionMarkUsage s)"
proof -
  have inner: "benign t (fold (\<lambda>y. clear_question_mark x y) ys t)" for x ys t
    by (rule benign_fold) (rule benign_clear_question_mark)
  have outer: "benign t (fold (\<lambda>x. fold (\<lambda>y. clear_question_mark x y) ys) xs t)" for xs ys t
    by (rule benign_fold) (rule inner)
  show ?thesis
    unfolding ToggleQuestionMarkUsage_def Let_def
    by (auto intro: benign_trans[OF benign_flags(5) outer] benign_flags(5))
qed

lemma benign_OnLButtonDown: "benign s (OnLButtonDown wParam gridPos s)"
proof -
  have "SetTileState (fst gridPos + snd gridPos * m_width s) CLICKED s
      = click_tile (fst gridPos + snd gridPos * m_width s) s"
    if "tileState (tile_xy s (fst gridPos) (snd gridPos)) = HIDDEN"
      "tileMark (tile_xy s (fst gridPos) (snd gridPos)) \<noteq> FLAG"
    using that by (simp add: click_tile_def tile_xy_def)
  then show ?thesis
    unfolding OnLButtonDown_def by (auto intro: benign_BeginChord benign_click_tile)
qed

lemma benign_OnMButtonDown: "benign s (OnMButtonDown wParam gridPos s)"
  unfolding OnMButtonDown_def by (auto intro: benign_BeginChord)

lemma benign_OnMouseLeave: "benign s (OnMouseLeave s)"
proof -
  have a: "benign t (t\<lparr>m_bLRHeldAfterChord := False, m_bMouseTracking := False\<rparr>)" for t
    by (simp add: benign_def tile_at_def)
  have b: "benign s (fold unclick_tile g s)" for g
    by (rule benign_fold) (rule benign_unclick_tile)
  show ?thesis
    unfolding OnMouseLeave_def Let_def
    by (auto intro: benign_trans[OF b a] a)
qed

lemma benign_OnMouseMove: "benign s (OnMouseMove wParam gridPos tracked s)"
proof -
  have m: "benign a (MovePos p q r f a)" for a p q r f by (rule benign_MovePos)
  have t: "benign s (s\<lparr>m_bMouseTracking := True\<rparr>)" by (rule benign_flags)
  have c: "benign a (b\<lparr>m_bChording := x\<rparr>)" if "benign a b" for a b x
    by (rule benign_trans[OF that benign_flags(1)])
  have p: "benign a (b\<lparr>m_lastGridPos := x\<rparr>)" if "benign a b" for a b x
    by (rule benign_trans[OF that benign_flags(4)])
  show ?thesis
    unfolding OnMouseMove_def Let_def
    by (auto intro!: p c benign_trans[OF t m] m t simp del: One_nat_def)
qed

subsection \<open>Fresh fields and marks\<close>

lemma count_update_drop:
  assumes "i < length ts" "P (ts ! i)" "\<not> P v"
  shows "Suc (length (filter P (ts[i := v]))) = length (filter P ts)"
proof -
  have "length (filter P ((ts[i := v])[i := ts ! i])) = Suc (length (filter P (ts[i := v])))"
    using assms by (intro count_update_new) simp_all
  then show ?thesis by simp
qed

lemma u32_sub_1: "0 < a \<Longrightarrow> a < 4294967296 \<Longrightarrow> u32_sub a 1 = a - 1"
  by (simp add: u32_sub_def nat_diff_distrib')

lemma fresh_inv:
  assumes "wf_field s" "m_aMineTiles s = replicate (m_cTiles s) MineTile_default"
    "m_cRevealedTiles s = 0" "m_cFlaggedTiles s = 0" "\<not> m_bGameLost s"
  shows "field_inv s"
proof -
  have t: "tile_at s i = MineTile_default" if "i < length (m_aMineTiles s)" for i
    using that assms(2) by (simp add: tile_at_def)
  have "count_revealed s = 0" "count_flagged s = 0"
    by (simp_all add: count_revealed_def count_flagged_def assms(2) MineTile_default_def)
  moreover have "flags_hidden s" "\<not> revealed_mine s" "numbers_ok s"
    using t by (auto simp: flags_hidden_def revealed_mine_def numbers_ok_def MineTile_default_def)
  ultimately show ?thesis using assms by (simp add: field_inv_def)
qed

lemma valid_size_u32: "valid_size w h \<Longrightarrow> u32 (w * h) = w * h"
  by (simp add: valid_size_def u32_id)

lemma field_inv_ctor:
  "valid_size width height \<Longrightarrow>
   field_inv (MinefieldWindow_ctor width height cMines chording held lastPos)"
  by (rule fresh_inv)
    (simp_all add: MinefieldWindow_ctor_def Let_def valid_size_u32 wf_field_def valid_size_def)

lemma field_inv_ResetGame: "wf_field s \<Longrightarrow> field_inv (ResetGame s)"
  by (rule fresh_inv) (simp_all add: ResetGame_def wf_field_def)

lemma field_inv_Resize:
  assumes "field_inv s" "valid_size width height"
  shows "field_inv (fst (Resize width height cMines s))"
proof (cases "m_width s \<noteq> width \<or> m_height s \<noteq> height \<or> m_cMines s \<noteq> cMines")
  case False
  then show ?thesis using assms(1) by (simp add: Resize_def)
next
  case True
  have "field_inv (ResetGame (s\<lparr>m_width := width, m_height := height, m_cTiles := width * height,
      m_cMines := (if cMines > width * height then width * height else cMines)\<rparr>))"
    using assms by (intro fresh_inv) (simp_all add: ResetGame_def wf_field_def valid_size_def)
  then show ?thesis using True by (simp add: Resize_def Let_def valid_size_u32[OF assms(2)])
qed

lemma set_mark_inv:
  assumes inv: "field_inv s" and i: "i < length (m_aMineTiles s)"
    and h: "tileState (tile_at s i) = HIDDEN"
    and f: "f' = count_flagged (SetTileMark i mk s)"
  shows "field_inv ((SetTileMark i mk s)\<lparr>m_cFlaggedTiles := f'\<rparr>)"
proof -
  define s' where "s' = (SetTileMark i mk s)\<lparr>m_cFlaggedTiles := f'\<rparr>"
  have ts: "m_aMineTiles s' = (m_aMineTiles s)[i := (tile_at s i)\<lparr>tileMark := mk\<rparr>]"
    by (simp add: s'_def SetTileMark_def set_tile_def)
  have l: "length (m_aMineTiles s') = length (m_aMineTiles s)" by (simp add: ts)
  have tk: "tileState (tile_at s' k) = tileState (tile_at s k) \<and>
            tileContent (tile_at s' k) = tileContent (tile_at s k) \<and>
            (k \<noteq> i \<longrightarrow> tile_at s' k = tile_at s k)" if "k < length (m_aMineTiles s)" for k
    using that by (cases "k = i") (simp_all add: tile_at_def ts)
  have fr: "m_width s' = m_width s" "m_height s' = m_height s" "m_cTiles s' = m_cTiles s"
    "m_cMines s' = m_cMines s" "m_cRevealedTiles s' = m_cRevealedTiles s"
    "m_bGameLost s' = m_bGameLost s" "m_cFlaggedTiles s' = f'"
    by (simp_all add: s'_def SetTileMark_def set_tile_def)
  have cf: "count_flagged s' = f'"
    by (simp add: f count_flagged_def ts SetTileMark_def set_tile_def)
  have "f' \<le> length (m_aMineTiles s')" unfolding cf[symmetric] count_flagged_def by simp
  then have wf: "wf_field s'" using inv fr l by (simp add: field_inv_def wf_field_def)
  have cr: "count_revealed s' = count_revealed s"
    unfolding count_revealed_def using l tk
    by (intro filter_count_cong) (auto simp: tile_at_def)
  have fh: "flags_hidden s'"
    unfolding flags_hidden_def l
  proof (intro allI impI)
    fix k assume k: "k < length (m_aMineTiles s)" and fl: "tileMark (tile_at s' k) = FLAG"
    show "tileState (tile_at s' k) = HIDDEN"
    proof (cases "k = i")
      case True
      then show ?thesis using tk[OF k] h by simp
    next
      case False
      then show ?thesis using tk[OF k] fl inv k by (simp add: field_inv_def flags_hidden_def)
    qed
  qed
  have rm: "revealed_mine s' = revealed_mine s"
    unfolding revealed_mine_def l using tk by metis
  have ne: "near_empty s' = near_empty s"
    using fr l tk by (intro near_empty_cong) auto
  have no: "numbers_ok s'"
    using inv tk unfolding field_inv_def numbers_ok_def ne l by metis
  show ?thesis
    unfolding s'_def[symmetric] field_inv_def using wf cr cf fh rm no inv fr
    by (simp add: field_inv_def)
qed

lemma field_inv_cycle_mark:
  assumes inv: "field_inv s" and i: "i < length (m_aMineTiles s)"
    and h: "tileState (tile_at s i) = HIDDEN"
  shows "field_inv (cycle_mark i s)"
proof -
  have wf: "wf_field s" and fc: "m_cFlaggedTiles s = count_flagged s"
    using inv by (simp_all add: field_inv_def)
  have ll: "length (m_aMineTiles s) < 4294967296" using wf by (simp add: wf_field_def)
  have sw: "SetTileMark i mk (s\<lparr>m_cFlaggedTiles := v\<rparr>) = (SetTileMark i mk s)\<lparr>m_cFlaggedTiles := v\<rparr>"
    for mk v by (simp add: SetTileMark_def set_tile_def tile_at_def)
  have same: "(SetTileMark i mk s)\<lparr>m_cFlaggedTiles := m_cFlaggedTiles s\<rparr> = SetTileMark i mk s"
    for mk by (simp add: SetTileMark_def set_tile_def)
  have cnt: "m_aMineTiles (SetTileMark i mk s) = (m_aMineTiles s)[i := (m_aMineTiles s ! i)\<lparr>tileMark := mk\<rparr>]"
    for mk by (simp add: SetTileMark_def set_tile_def tile_at_def)
  show ?thesis
  proof (cases "tileMark (tile_at s i)")
    case NONE
    have c: "count_flagged (SetTileMark i FLAG s) = Suc (count_flagged s)"
      unfolding count_flagged_def cnt using i NONE
      by (intro count_update_new) (simp_all add: tile_at_def)
    have "count_flagged (SetTileMark i FLAG s) \<le> length (m_aMineTiles s)"
      unfolding count_flagged_def cnt by (rule order_trans[OF length_filter_le]) simp
    then have "u32 (m_cFlaggedTiles s + 1) = count_flagged (SetTileMark i FLAG s)"
      using c fc ll by (simp add: u32_id)
    from set_mark_inv[OF inv i h this] show ?thesis
      using NONE by (simp add: cycle_mark_def sw)
  next
    case FLAG
    have c: "Suc (count_flagged (SetTileMark i mk s)) = count_flagged s" if "mk \<noteq> FLAG" for mk
      unfolding count_flagged_def cnt using i FLAG that
      by (intro count_update_drop) (simp_all add: tile_at_def)
    have pos: "0 < m_cFlaggedTiles s" using c[of NONE] fc by simp
    have lt: "m_cFlaggedTiles s < 4294967296" using wf by (simp add: wf_field_def)
    have e: "u32_sub (m_cFlaggedTiles s) 1 = count_flagged (SetTileMark i mk s)" if "mk \<noteq> FLAG" for mk
      using c[OF that] fc u32_sub_1[OF pos lt] by simp
    show ?thesis
      using FLAG set_mark_inv[OF inv i h e[of QUESTION_MARK]] set_mark_inv[OF inv i h e[of NONE]]
      by (simp add: cycle_mark_def sw Let_def)
  next
    case QUESTION_MARK
    have "count_flagged (SetTileMark i NONE s) = count_flagged s"
      unfolding count_flagged_def cnt using i QUESTION_MARK
      by (intro count_update_same) (simp_all add: tile_at_def)
    then have "m_cFlaggedTiles s = count_flagged (SetTileMark i NONE s)" using fc by simp
    from set_mark_inv[OF inv i h this] show ?thesis
      using QUESTION_MARK by (simp add: cycle_mark_def same)
  qed
qed

subsection \<open>Reveals and chords\<close>

lemma field_inv_lost_irrelevant_parts:
  "wf_field (s\<lparr>m_bGameLost := b\<rparr>) = wf_field s"
  "count_flagged (s\<lparr>m_bGameLost := b\<rparr>) = count_flagged s"
  "flags_hidden (s\<lparr>m_bGameLost := b\<rparr>) = flags_hidden s"
  "revealed_mine (s\<lparr>m_bGameLost := b\<rparr>) = revealed_mine s"
  "near_empty (s\<lparr>m_bGameLost := b\<rparr>) = near_empty s"
  "numbers_ok (s\<lparr>m_bGameLost := b\<rparr>) = numbers_ok s"
  by (simp_all add: wf_field_def count_flagged_def flags_hidden_def revealed_mine_def
      near_empty_def numbers_ok_def GetTileGrid_def cong: if_cong)

lemma mod_div_in_grid:
  assumes "wf_field s" "k < length (m_aMineTiles s)"
  shows "k mod m_width s < m_width s" "k div m_width s < m_height s"
    "k mod m_width s + k div m_width s * m_width s = k"
proof -
  have l: "k < m_width s * m_height s" using assms by (simp add: wf_field_def)
  then have w: "0 < m_width s" by (cases "m_width s") simp_all
  show "k mod m_width s < m_width s" using w by simp
  show "k div m_width s < m_height s" using l by (simp add: less_mult_imp_div_less mult.commute)
  show "k mod m_width s + k div m_width s * m_width s = k" by simp
qed

lemma field_inv_SetTileRevealed:
  assumes inv: "field_inv s" and x: "x < m_width s" and y: "y < m_height s"
  shows "field_inv (SetTileRevealed x y s)"
    "m_width (SetTileRevealed x y s) = m_width s"
    "m_height (SetTileRevealed x y s) = m_height s"
    "length (m_aMineTiles (SetTileRevealed x y s)) = length (m_aMineTiles s)"
proof -
  have wf: "wf_field s" using inv by (simp add: field_inv_def)
  define i where "i = x + y * m_width s"
  define fresh where "fresh = (tileState (tile_at s i) \<noteq> REVEALED \<and> tileMark (tile_at s i) \<noteq> FLAG)"
  define lost where "lost = (m_bGameLost s \<or> (fresh \<and> tileContent (tile_at s i) = MINE))"
  from SetTileRevealed_spec[OF wf x y] obtain t where
    t: "reveals (insert i (near_empty s)) s t" "fresh \<longrightarrow> tileState (tile_at t i) = REVEALED"
      "SetTileRevealed x y s = t\<lparr>m_bGameLost := lost\<rparr>"
    unfolding i_def fresh_def lost_def by blast
  note fr = reveals_frame[OF t(1)]
  note xi = xy_index[OF wf x y, folded i_def]
  show "m_width (SetTileRevealed x y s) = m_width s" "m_height (SetTileRevealed x y s) = m_height s"
    "length (m_aMineTiles (SetTileRevealed x y s)) = length (m_aMineTiles s)"
    using fr by (simp_all add: t(3))
  have l: "length (m_aMineTiles t) = length (m_aMineTiles s)" by (rule fr(12))
  have tk: "tile_at t k = tile_at s k \<or>
         (k \<in> insert i (near_empty s) \<and> tileState (tile_at s k) \<noteq> REVEALED \<and>
          tileMark (tile_at s k) \<noteq> FLAG \<and> tile_at t k = (tile_at s k)\<lparr>tileState := REVEALED\<rparr>)"
    if "k < length (m_aMineTiles s)" for k
    using t(1) that by (simp add: reveals_def)
  have wft: "wf_field t" by (rule reveals_wf[OF wf t(1)])
  have ll: "length (m_aMineTiles t) < 4294967296" using wft by (simp add: wf_field_def)
  have c: "count_revealed s \<le> count_revealed t"
    and r: "m_cRevealedTiles t = u32 (m_cRevealedTiles s + (count_revealed t - count_revealed s))"
    using t(1) by (simp_all add: reveals_def)
  have "m_cRevealedTiles t = u32 (count_revealed t)"
    using r c inv by (simp add: field_inv_def)
  then have cr: "m_cRevealedTiles t = count_revealed t"
    using reveals_count_bound[of t] ll by (simp add: u32_id)
  have mk: "tileMark (m_aMineTiles t ! k) = tileMark (m_aMineTiles s ! k)"
    if "k < length (m_aMineTiles s)" for k
    using reveals_tile[OF t(1) that] by (simp add: tile_at_def)
  have cf: "count_flagged t = count_flagged s"
    unfolding count_flagged_def using l mk
    by (intro filter_count_cong) simp_all
  have fh: "flags_hidden t"
    unfolding flags_hidden_def l
  proof (intro allI impI)
    fix k assume k: "k < length (m_aMineTiles s)" and fl: "tileMark (tile_at t k) = FLAG"
    from tk[OF k] fl have "tile_at t k = tile_at s k" by auto
    then show "tileState (tile_at t k) = HIDDEN"
      using fl inv k by (simp add: field_inv_def flags_hidden_def)
  qed
  have no_s: "numbers_ok s" using inv by (simp add: field_inv_def)
  have rm: "revealed_mine t \<longleftrightarrow> revealed_mine s \<or> (fresh \<and> tileContent (tile_at s i) = MINE)"
  proof
    assume "revealed_mine t"
    then obtain k where k: "k < length (m_aMineTiles s)" "tileState (tile_at t k) = REVEALED"
      "tileContent (tile_at t k) = MINE"
      by (auto simp: revealed_mine_def l)
    from tk[OF k(1)] show "revealed_mine s \<or> (fresh \<and> tileContent (tile_at s i) = MINE)"
    proof
      assume "tile_at t k = tile_at s k"
      then show ?thesis using k by (auto simp: revealed_mine_def)
    next
      assume a: "k \<in> insert i (near_empty s) \<and> tileState (tile_at s k) \<noteq> REVEALED \<and>
          tileMark (tile_at s k) \<noteq> FLAG \<and> tile_at t k = (tile_at s k)\<lparr>tileState := REVEALED\<rparr>"
      then have m: "tileContent (tile_at s k) = MINE" using k(3) by simp
      then have "k \<notin> near_empty s" using no_s k(1) by (auto simp: numbers_ok_def)
      then have "k = i" using a by simp
      then show ?thesis using a m by (simp add: fresh_def)
    qed
  next
    assume "revealed_mine s \<or> (fresh \<and> tileContent (tile_at s i) = MINE)"
    then show "revealed_mine t"
    proof
      assume "revealed_mine s"
      then obtain k where k: "k < length (m_aMineTiles s)" "tileState (tile_at s k) = REVEALED"
        "tileContent (tile_at s k) = MINE"
        by (auto simp: revealed_mine_def)
      from reveals_tile[OF t(1) k(1)] k show ?thesis unfolding revealed_mine_def l by auto
    next
      assume a: "fresh \<and> tileContent (tile_at s i) = MINE"
      from reveals_tile[OF t(1) xi(1)] a t(2) xi(1) show ?thesis
        unfolding revealed_mine_def l by auto
    qed
  qed
  have ne: "near_empty t = near_empty s"
    using fr reveals_tile[OF t(1)] by (intro near_empty_cong) auto
  have no: "numbers_ok t"
    unfolding numbers_ok_def ne l using no_s reveals_tile[OF t(1)] by (auto simp: numbers_ok_def)
  have lo: "lost \<longleftrightarrow> revealed_mine t"
    using rm inv by (simp add: lost_def field_inv_def)
  show "field_inv (SetTileRevealed x y s)"
    unfolding t(3) field_inv_def field_inv_lost_irrelevant_parts
    using wft cr cf fh no lo fr(5) inv by (simp add: field_inv_def)
qed

lemma field_inv_reveal_fold:
  assumes "field_inv s" "\<forall>k \<in> set g. k < length (m_aMineTiles s)"
  shows "field_inv (fold (\<lambda>tile s1. SetTileRevealed (tile mod m_width s1) (tile div m_width s1) s1) g s)"
  using assms
proof (induction g arbitrary: s)
  case Nil
  then show ?case by simp
next
  case (Cons k g)
  have wf: "wf_field s" using Cons.prems by (simp add: field_inv_def)
  have kl: "k < length (m_aMineTiles s)" using Cons.prems by simp
  note md = mod_div_in_grid[OF wf kl]
  note st = field_inv_SetTileRevealed[OF Cons.prems(1) md(1,2)]
  have "\<forall>j \<in> set g. j < length (m_aMineTiles (SetTileRevealed (k mod m_width s) (k div m_width s) s))"
    using Cons.prems st(4) by simp
  from Cons.IH[OF st(1) this] show ?case by simp
qed

lemma field_inv_EndChord:
  assumes "field_inv s"
  shows "field_inv (EndChord x y s)"
proof -
  have wf: "wf_field s" using assms by (simp add: field_inv_def)
  have g: "\<forall>k \<in> set (GetTileGrid s x y 1). k < length (m_aMineTiles s)"
    using grid_index_in_range[OF wf] by blast
  have u: "field_inv (fold unclick_tile (GetTileGrid s x y 1) s)"
    by (rule benign_inv[OF assms benign_fold[of unclick_tile, OF benign_unclick_tile]])
  have c: "field_inv (t\<lparr>m_bChording := False\<rparr>)" if "field_inv t" for t
    by (rule benign_inv[OF that benign_flags(1)])
  show ?thesis
    unfolding EndChord_def using u field_inv_reveal_fold[OF assms g] by (auto intro!: c)
qed

subsection \<open>GenerateNumbers\<close>

text \<open>
  \<^verbatim>\<open>GenerateNumbers\<close> changes contents only (\<open>recontent\<close>), keeps the mines where they
  are (\<open>mines_kept\<close>) and gives every other tile the number of the mines around it, so
  that the grid around an \<^verbatim>\<open>EMPTY\<close> tile is free of mines.
\<close>

lemma recontent_refl [simp]: "recontent s s"
  by (simp add: recontent_def)

lemma recontent_trans: "recontent a b \<Longrightarrow> recontent b c \<Longrightarrow> recontent a c"
  by (simp add: recontent_def)

lemma recontent_wf: "wf_field s \<Longrightarrow> recontent s s' \<Longrightarrow> wf_field s'"
  by (simp add: wf_field_def recontent_def)

lemma mines_kept_refl [simp]: "mines_kept s s"
  by (simp add: mines_kept_def)

lemma mines_kept_trans:
  "length (m_aMineTiles b) = length (m_aMineTiles a) \<Longrightarrow> mines_kept a b \<Longrightarrow> mines_kept b c \<Longrightarrow>
   mines_kept a c"
  by (simp add: mines_kept_def)

lemma recontent_SetTileContent: "recontent s (SetTileContent i c s)"
proof -
  have "tileState (tile_at (SetTileContent i c s) k) = tileState (tile_at s k) \<and>
        tileMark (tile_at (SetTileContent i c s) k) = tileMark (tile_at s k)"
    if "k < length (m_aMineTiles s)" for k
    using that by (cases "k = i") (simp_all add: SetTileContent_def set_tile_def tile_at_def)
  then show ?thesis by (simp add: recontent_def SetTileContent_def set_tile_def)
qed

lemma recontent_fold:
  assumes "\<And>x s. recontent s (f x s)"
  shows "recontent s (fold f xs s)"
proof (induction xs arbitrary: s)
  case Nil
  show ?case by simp
next
  case (Cons x xs)
  show ?case using recontent_trans[OF assms[of s x] Cons.IH[of "f x s"]] by simp
qed

lemma concat_map_length_le:
  "(\<And>z. z \<in> set zs \<Longrightarrow> length (f z) \<le> n) \<Longrightarrow> length (concat (map f zs)) \<le> n * length zs"
proof (induction zs)
  case Nil
  then show ?case by simp
next
  case (Cons z zs)
  have "length (f z) \<le> n" using Cons.prems by simp
  moreover have "length (concat (map f zs)) \<le> n * length zs" using Cons by simp
  ultimately show ?case by simp
qed

lemma grid_length_le: "length (GetTileGrid s x y 1) \<le> 9"
proof -
  define row where "row = (\<lambda>yOffset.
      concat (map (\<lambda>xOffset.
                 if 0 \<le> u32_add_int x xOffset \<and> u32_add_int x xOffset < m_width s then
                   [u32 (u32_add_int x xOffset + u32 (u32_add_int y yOffset * m_width s))]
                 else []) [- 1, 0, 1 :: int]))"
  have r: "length (row z) \<le> 3" for z
    unfolding row_def
    by (rule order_trans[OF concat_map_length_le[where n = 1]]) simp_all
  have "length (concat (map (\<lambda>yOffset.
             if 0 \<le> u32_add_int y yOffset \<and> u32_add_int y yOffset < m_height s then row yOffset
             else []) [- 1, 0, 1 :: int])) \<le> 3 * length [- 1, 0, 1 :: int]"
    using concat_map_length_le[of "[- 1, 0, 1 :: int]"
        "\<lambda>yOffset. if 0 \<le> u32_add_int y yOffset \<and> u32_add_int y yOffset < m_height s
                   then row yOffset else []" 3] r
    by simp
  then show ?thesis unfolding GetTileGrid_def upto_m1_1 row_def by simp
qed

lemma u32_add_int_0: "n < 4294967296 \<Longrightarrow> u32_add_int n 0 = n"
  by (simp add: u32_add_int_def)

lemma GetTileGrid_member:
  assumes "0 \<le> r" "- r \<le> xo" "xo \<le> r" "- r \<le> yo" "yo \<le> r"
    "u32_add_int x xo < m_width s" "u32_add_int y yo < m_height s"
  shows "u32 (u32_add_int x xo + u32 (u32_add_int y yo * m_width s)) \<in> set (GetTileGrid s x y r)"
  using assms
  by (simp add: GetTileGrid_def)
    (intro bexI[of _ yo] bexI[of _ xo], simp_all)

lemma grid_center:
  assumes wf: "wf_field s" and x: "x < m_width s" and y: "y < m_height s"
  shows "x + y * m_width s \<in> set (GetTileGrid s x y 1)"
proof -
  have "m_width s < 4294967296" "m_height s < 4294967296" using wf by (simp_all add: wf_field_def)
  then have xl: "x < 4294967296" and yl: "y < 4294967296" using x y by linarith+
  note xi = xy_index[OF wf x y]
  have a: "u32_add_int x 0 = x" by (rule u32_add_int_0[OF xl])
  have b: "u32_add_int y 0 = y" by (rule u32_add_int_0[OF yl])
  from GetTileGrid_member[of 1 0 0 x s y] show ?thesis
    using x y by (simp add: a b xi(2))
qed

lemma idx_inj:
  fixes w :: nat
  assumes "x < w" "x' < w" "x + y * w = x' + y' * w"
  shows "x = x' \<and> y = y'"
proof -
  have "(x + y * w) mod w = (x' + y' * w) mod w" using assms(3) by simp
  then have xx: "x = x'" using assms(1,2) by simp
  have "(x + y * w) div w = (x' + y' * w) div w" using assms(3) by simp
  then have "y = y'" using assms(1,2) by simp
  then show ?thesis using xx by simp
qed

lemma GetNumberAdjacentMines_cong:
  assumes wf: "wf_field s" and rc: "recontent s s'" and mk: "mines_kept s s'"
  shows "GetNumberAdjacentMines s' x y = GetNumberAdjacentMines s x y"
proof -
  have g: "GetTileGrid s' x y 1 = GetTileGrid s x y 1"
    using rc by (intro GetTileGrid_cong) (simp_all add: recontent_def)
  have "filter (\<lambda>tile. tileContent (tile_at s' tile) = MINE) (GetTileGrid s x y 1)
      = filter (\<lambda>tile. tileContent (tile_at s tile) = MINE) (GetTileGrid s x y 1)"
    using grid_index_in_range[OF wf] mk by (intro filter_cong) (auto simp: mines_kept_def)
  then show ?thesis by (simp add: GetNumberAdjacentMines_def g)
qed

lemma number_content_not_MINE [simp]: "number_content n \<noteq> MINE"
  by (simp add: number_content_def)

lemma number_content_EMPTY: "number_content n = EMPTY \<Longrightarrow> n = 0 \<or> 8 < n"
  unfolding number_content_def by (simp split: if_splits) arith

lemma number_tile_spec:
  assumes i: "i = x + y * m_width s"
  shows "recontent s (number_tile x y s)" "mines_kept s (number_tile x y s)"
    "i < length (m_aMineTiles s) \<Longrightarrow> tileContent (tile_at (number_tile x y s) i) \<noteq> MINE \<Longrightarrow>
       tileContent (tile_at (number_tile x y s) i) = number_content (GetNumberAdjacentMines s x y)"
    "k \<noteq> i \<Longrightarrow> tile_at (number_tile x y s) k = tile_at s k"
proof -
  show "recontent s (number_tile x y s)"
    by (simp add: number_tile_def recontent_SetTileContent)
  show "mines_kept s (number_tile x y s)"
    unfolding mines_kept_def number_tile_def
  proof (intro allI impI)
    fix k assume "k < length (m_aMineTiles s)"
    then show "(tileContent (tile_at (if tileContent (tile_xy s x y) \<noteq> MINE
          then SetTileContent (x + y * m_width s) (number_content (GetNumberAdjacentMines s x y)) s
          else s) k) = MINE) = (tileContent (tile_at s k) = MINE)"
      by (cases "k = x + y * m_width s")
        (simp_all add: SetTileContent_def set_tile_def tile_at_def tile_xy_def)
  qed
  show "tileContent (tile_at (number_tile x y s) i) = number_content (GetNumberAdjacentMines s x y)"
    if "i < length (m_aMineTiles s)" "tileContent (tile_at (number_tile x y s) i) \<noteq> MINE"
    using that by (simp add: i number_tile_def SetTileContent_def set_tile_def tile_at_def tile_xy_def
        split: if_splits)
  show "tile_at (number_tile x y s) k = tile_at s k" if "k \<noteq> i"
    using that by (simp add: i number_tile_def SetTileContent_def set_tile_def tile_at_def)
qed

lemma fold_nested_product:
  "fold (\<lambda>x. fold (\<lambda>y. f x y) ys) xs s = fold (\<lambda>(x, y). f x y) (List.product xs ys) s"
proof (induction xs arbitrary: s)
  case Nil
  show ?case by simp
next
  case (Cons x xs)
  have "fold (\<lambda>(x, y). f x y) (map (Pair x) ys) t = fold (f x) ys t" for t
    by (simp add: fold_map comp_def)
  then show ?case using Cons.IH by simp
qed

lemma number_fold_spec:
  assumes "wf_field s" "\<forall>(x, y) \<in> set ps. x < m_width s \<and> y < m_height s" "distinct ps"
  shows "recontent s (fold (\<lambda>(x, y). number_tile x y) ps s) \<and>
         mines_kept s (fold (\<lambda>(x, y). number_tile x y) ps s) \<and>
         (\<forall>(x, y) \<in> set ps.
            tileContent (tile_at (fold (\<lambda>(x, y). number_tile x y) ps s) (x + y * m_width s)) \<noteq> MINE \<longrightarrow>
            tileContent (tile_at (fold (\<lambda>(x, y). number_tile x y) ps s) (x + y * m_width s))
              = number_content (GetNumberAdjacentMines s x y)) \<and>
         (\<forall>k. k \<notin> (\<lambda>(x, y). x + y * m_width s) ` set ps \<longrightarrow>
            tile_at (fold (\<lambda>(x, y). number_tile x y) ps s) k = tile_at s k)"
  using assms
proof (induction ps arbitrary: s)
  case Nil
  then show ?case by simp
next
  case (Cons p ps)
  obtain x y where p: "p = (x, y)" by (cases p)
  define i where "i = x + y * m_width s"
  define s1 where "s1 = number_tile x y s"
  define s2 where "s2 = fold (\<lambda>(x, y). number_tile x y) ps s1"
  have xy: "x < m_width s" "y < m_height s" using Cons.prems(2) by (simp_all add: p)
  note il = xy_index(1)[OF Cons.prems(1) xy, folded i_def]
  note nt = number_tile_spec[OF i_def, folded s1_def]
  have wf1: "wf_field s1" by (rule recontent_wf[OF Cons.prems(1) nt(1)])
  have w1: "m_width s1 = m_width s" "m_height s1 = m_height s"
    "length (m_aMineTiles s1) = length (m_aMineTiles s)"
    using nt(1) by (simp_all add: recontent_def)
  have b1: "\<forall>(x, y) \<in> set ps. x < m_width s1 \<and> y < m_height s1"
    using Cons.prems(2) w1 by simp
  have d1: "distinct ps" using Cons.prems(3) by simp
  from Cons.IH[OF wf1 b1 d1, folded s2_def] have
    ih: "recontent s1 s2" "mines_kept s1 s2"
      "\<forall>(x, y) \<in> set ps. tileContent (tile_at s2 (x + y * m_width s1)) \<noteq> MINE \<longrightarrow>
         tileContent (tile_at s2 (x + y * m_width s1)) = number_content (GetNumberAdjacentMines s1 x y)"
      "\<forall>k. k \<notin> (\<lambda>(x, y). x + y * m_width s1) ` set ps \<longrightarrow> tile_at s2 k = tile_at s1 k"
    by simp_all
  have f: "fold (\<lambda>(x, y). number_tile x y) (p # ps) s = s2"
    by (simp add: p s2_def s1_def)
  have r: "recontent s s2" by (rule recontent_trans[OF nt(1) ih(1)])
  have m: "mines_kept s s2" by (rule mines_kept_trans[OF w1(3) nt(2) ih(2)])
  have adj: "GetNumberAdjacentMines s1 x' y' = GetNumberAdjacentMines s x' y'" for x' y'
    by (rule GetNumberAdjacentMines_cong[OF Cons.prems(1) nt(1) nt(2)])
  have inotin: "i \<notin> (\<lambda>(x, y). x + y * m_width s1) ` set ps"
  proof
    assume "i \<in> (\<lambda>(x, y). x + y * m_width s1) ` set ps"
    then obtain x' y' where q: "(x', y') \<in> set ps" "i = x' + y' * m_width s" by (auto simp: w1)
    have "x' < m_width s" using Cons.prems(2) q(1) by auto
    from idx_inj[OF xy(1) this q(2)[unfolded i_def]] have "(x', y') = p" by (simp add: p)
    then show False using Cons.prems(3) q(1) by simp
  qed
  have c_p: "tileContent (tile_at s2 i) \<noteq> MINE \<longrightarrow>
             tileContent (tile_at s2 i) = number_content (GetNumberAdjacentMines s x y)"
  proof -
    have "tile_at s2 i = tile_at s1 i" using ih(4) inotin by simp
    then show ?thesis using nt(3)[OF il] by simp
  qed
  have c_ps: "\<forall>(x, y) \<in> set ps. tileContent (tile_at s2 (x + y * m_width s)) \<noteq> MINE \<longrightarrow>
         tileContent (tile_at s2 (x + y * m_width s)) = number_content (GetNumberAdjacentMines s x y)"
    using ih(3) by (simp add: w1 adj)
  have other: "\<forall>k. k \<notin> (\<lambda>(x, y). x + y * m_width s) ` set (p # ps) \<longrightarrow> tile_at s2 k = tile_at s k"
  proof (intro allI impI)
    fix k assume k: "k \<notin> (\<lambda>(x, y). x + y * m_width s) ` set (p # ps)"
    then have "k \<noteq> i" "k \<notin> (\<lambda>(x, y). x + y * m_width s1) ` set ps"
      by (auto simp: p i_def w1)
    then show "tile_at s2 k = tile_at s k" using ih(4) nt(4) by simp
  qed
  show ?case unfolding f using r m c_p c_ps other by (simp add: p i_def)
qed

lemma GenerateNumbers_spec:
  assumes wf: "wf_field s"
  shows "recontent s (GenerateNumbers s)" "mines_kept s (GenerateNumbers s)"
    "x < m_width s \<Longrightarrow> y < m_height s \<Longrightarrow>
     tileContent (tile_at (GenerateNumbers s) (x + y * m_width s)) \<noteq> MINE \<Longrightarrow>
     tileContent (tile_at (GenerateNumbers s) (x + y * m_width s))
       = number_content (GetNumberAdjacentMines s x y)"
proof -
  define ps where "ps = List.product [0..<m_width s] [0..<m_height s]"
  have g: "GenerateNumbers s = fold (\<lambda>(x, y). number_tile x y) ps s"
    by (simp add: GenerateNumbers_def fold_nested_product ps_def)
  have b: "\<forall>(x, y) \<in> set ps. x < m_width s \<and> y < m_height s" by (simp add: ps_def)
  have d: "distinct ps" by (simp add: ps_def distinct_product)
  note sp = number_fold_spec[OF wf b d, folded g]
  show "recontent s (GenerateNumbers s)" "mines_kept s (GenerateNumbers s)" using sp by simp_all
  show "tileContent (tile_at (GenerateNumbers s) (x + y * m_width s))
       = number_content (GetNumberAdjacentMines s x y)"
    if "x < m_width s" "y < m_height s"
      "tileContent (tile_at (GenerateNumbers s) (x + y * m_width s)) \<noteq> MINE"
  proof -
    have "(x, y) \<in> set ps" using that by (simp add: ps_def)
    then show ?thesis using sp that(3) by blast
  qed
qed

lemma numbers_ok_GenerateNumbers:
  assumes wf: "wf_field s"
  shows "numbers_ok (GenerateNumbers s)"
  unfolding numbers_ok_def
proof (intro ballI impI)
  define s' where "s' = GenerateNumbers s"
  note sp = GenerateNumbers_spec[OF wf, folded s'_def]
  have fr: "m_width s' = m_width s" "m_height s' = m_height s"
    "length (m_aMineTiles s') = length (m_aMineTiles s)"
    using sp(1) by (simp_all add: recontent_def)
  fix i assume ne: "i \<in> near_empty (GenerateNumbers s)"
    and il: "i < length (m_aMineTiles (GenerateNumbers s))"
  from ne obtain j where j: "j < length (m_aMineTiles s)" "tileContent (tile_at s' j) = EMPTY"
    "i \<in> set (GetTileGrid s' (j mod m_width s) (j div m_width s) 1)"
    by (auto simp: near_empty_def s'_def[symmetric] fr)
  define x where "x = j mod m_width s"
  define y where "y = j div m_width s"
  note md = mod_div_in_grid[OF wf j(1), folded x_def y_def]
  define g where "g = GetTileGrid s x y 1"
  have gg: "GetTileGrid s' x y 1 = g"
    unfolding g_def by (rule GetTileGrid_cong[OF fr(1,2)])
  have ig: "i \<in> set g" using j(3) by (simp add: x_def[symmetric] y_def[symmetric] gg)
  have jg: "j \<in> set g" using grid_center[OF wf md(1,2)] by (simp add: md(3) g_def)
  have nm': "tileContent (tile_at s' j) \<noteq> MINE" using j(2) by simp
  then have nm: "tileContent (tile_at s j) \<noteq> MINE" using sp(2) j(1) by (simp add: mines_kept_def)
  have "tileContent (tile_at s' (x + y * m_width s)) = number_content (GetNumberAdjacentMines s x y)"
    using sp(3)[OF md(1,2)] nm' by (simp add: md(3))
  then have "number_content (GetNumberAdjacentMines s x y) = EMPTY" using j(2) by (simp add: md(3))
  from number_content_EMPTY[OF this] have z: "GetNumberAdjacentMines s x y = 0 \<or> 8 < GetNumberAdjacentMines s x y" .
  have "length (filter (\<lambda>tile. tileContent (tile_at s tile) = MINE) g) < length g"
    using jg nm by (intro length_filter_less[of j]) simp_all
  then have "GetNumberAdjacentMines s x y < 9"
    using grid_length_le[of s x y] by (simp add: GetNumberAdjacentMines_def g_def)
  then have "GetNumberAdjacentMines s x y = 0" using z by simp
  then have "tileContent (tile_at s i) \<noteq> MINE"
    using ig by (auto simp: GetNumberAdjacentMines_def g_def filter_empty_conv)
  then show "tileContent (tile_at (GenerateNumbers s) i) \<noteq> MINE"
    using sp(2) il by (simp add: mines_kept_def s'_def[symmetric] fr)
qed

lemma GenerateMines_recontent:
  assumes wf: "wf_field s"
  shows "recontent s (GenerateMines SampleVector x y s)" "numbers_ok (GenerateMines SampleVector x y s)"
proof -
  define s1 where "s1 = fold (\<lambda>tile. SetTileContent tile MINE)
      (SampleVector (GenerateMines_candidates s x y) (m_cMines s)) s"
  have g: "GenerateMines SampleVector x y s = GenerateNumbers s1"
    by (simp add: GenerateMines_def s1_def Let_def)
  have r1: "recontent s s1"
    unfolding s1_def by (rule recontent_fold) (rule recontent_SetTileContent)
  have wf1: "wf_field s1" by (rule recontent_wf[OF wf r1])
  show "recontent s (GenerateMines SampleVector x y s)"
    unfolding g by (rule recontent_trans[OF r1 GenerateNumbers_spec(1)[OF wf1]])
  show "numbers_ok (GenerateMines SampleVector x y s)"
    unfolding g by (rule numbers_ok_GenerateNumbers[OF wf1])
qed

lemma field_inv_GenerateMines:
  assumes inv: "field_inv s" and r0: "m_cRevealedTiles s = 0"
  shows "field_inv (GenerateMines SampleVector x y s)"
proof -
  define s' where "s' = GenerateMines SampleVector x y s"
  have wf: "wf_field s" using inv by (simp add: field_inv_def)
  note g = GenerateMines_recontent[OF wf, of SampleVector x y, folded s'_def]
  have l: "length (m_aMineTiles s') = length (m_aMineTiles s)" using g(1) by (simp add: recontent_def)
  have tk: "tileState (tile_at s' k) = tileState (tile_at s k) \<and>
            tileMark (tile_at s' k) = tileMark (tile_at s k)" if "k < length (m_aMineTiles s)" for k
    using g(1) that by (simp add: recontent_def)
  have cr: "count_revealed s' = count_revealed s"
    unfolding count_revealed_def using l tk by (intro filter_count_cong) (simp_all add: tile_at_def)
  have cf: "count_flagged s' = count_flagged s"
    unfolding count_flagged_def using l tk by (intro filter_count_cong) (simp_all add: tile_at_def)
  have fh: "flags_hidden s'"
    using inv tk unfolding field_inv_def flags_hidden_def l by simp
  have c0: "count_revealed s = 0" using inv r0 by (simp add: field_inv_def)
  have none: "tileState (tile_at s k) \<noteq> REVEALED" if "k < length (m_aMineTiles s)" for k
  proof
    assume "tileState (tile_at s k) = REVEALED"
    then have "m_aMineTiles s ! k \<in> set (filter (\<lambda>t. tileState t = REVEALED) (m_aMineTiles s))"
      using that by (simp add: tile_at_def)
    then show False using c0 by (auto simp: count_revealed_def filter_empty_conv)
  qed
  have rm: "\<not> revealed_mine s'" "\<not> revealed_mine s"
    using none tk by (auto simp: revealed_mine_def l)
  show ?thesis
    unfolding s'_def[symmetric] field_inv_def
    using recontent_wf[OF wf g(1)] cr cf fh rm g inv
    by (simp add: field_inv_def recontent_def)
qed

subsection \<open>The handlers\<close>

lemma field_inv_flag:
  "field_inv s \<Longrightarrow> field_inv (s\<lparr>m_bLRHeldAfterChord := b\<rparr>)"
  "field_inv s \<Longrightarrow> field_inv (s\<lparr>m_bChording := c\<rparr>)"
  by (rule benign_inv[OF _ benign_flags(2)], assumption)
    (rule benign_inv[OF _ benign_flags(1)], assumption)

lemma field_inv_OnLButtonUp:
  assumes inv: "field_inv s" and g: "in_grid s gridPos"
  shows "field_inv (OnLButtonUp SampleVector wParam gridPos s)"
proof -
  obtain x y where p: "gridPos = (x, y)" by (cases gridPos)
  have xy: "x < m_width s" "y < m_height s" using g by (simp_all add: in_grid_def p)
  have wf: "wf_field s" using inv by (simp add: field_inv_def)
  have a: "field_inv ((EndChord x y s)\<lparr>m_bLRHeldAfterChord := True\<rparr>)"
    by (rule field_inv_flag(1)[OF field_inv_EndChord[OF inv]])
  have b: "field_inv (SetTileRevealed x y s)"
    by (rule field_inv_SetTileRevealed(1)[OF inv xy])
  have c: "field_inv (SetTileRevealed x y (GenerateMines SampleVector x y s))"
    if "m_cRevealedTiles s = 0"
  proof -
    have r: "recontent s (GenerateMines SampleVector x y s)"
      by (rule GenerateMines_recontent(1)[OF wf])
    have xy': "x < m_width (GenerateMines SampleVector x y s)"
      "y < m_height (GenerateMines SampleVector x y s)"
      using r xy by (simp_all add: recontent_def)
    show ?thesis
      by (rule field_inv_SetTileRevealed(1)[OF field_inv_GenerateMines[OF inv that] xy'])
  qed
  show ?thesis
    unfolding OnLButtonUp_def p fst_conv snd_conv Let_def
    using a b c inv field_inv_flag(1)[OF inv, of False] by simp
qed

lemma field_inv_OnRButtonDown:
  assumes inv: "field_inv s" and g: "in_grid s gridPos"
  shows "field_inv (OnRButtonDown wParam gridPos s)"
proof -
  obtain x y where p: "gridPos = (x, y)" by (cases gridPos)
  have xy: "x < m_width s" "y < m_height s" using g by (simp_all add: in_grid_def p)
  have wf: "wf_field s" using inv by (simp add: field_inv_def)
  note xi = xy_index(1)[OF wf xy]
  have a: "field_inv (BeginChord x y s)" by (rule benign_inv[OF inv benign_BeginChord])
  have b: "field_inv (cycle_mark (x + y * m_width s) s)"
    if "tileState (tile_xy s x y) = HIDDEN"
    using that by (intro field_inv_cycle_mark[OF inv xi]) (simp add: tile_xy_def)
  show ?thesis
    unfolding OnRButtonDown_def p fst_conv snd_conv using a b inv by simp
qed

lemma field_inv_OnRButtonUp:
  assumes inv: "field_inv s"
  shows "field_inv (OnRButtonUp wParam gridPos s)"
  unfolding OnRButtonUp_def
  using inv field_inv_flag(1)[OF field_inv_EndChord[OF inv]] field_inv_flag(1)[OF inv, of False]
  by simp

lemma field_inv_OnMButtonUp:
  assumes inv: "field_inv s"
  shows "field_inv (OnMButtonUp wParam gridPos s)"
  unfolding OnMButtonUp_def Let_def
  using inv field_inv_EndChord[OF inv] field_inv_EndChord[OF field_inv_flag(1)[OF inv, of True]]
  by simp

lemma field_inv_HandleMessage:
  assumes inv: "field_inv s" and g: "message_in_grid s msg"
  shows "field_inv (HandleMessage SampleVector msg s)"
proof (cases msg)
  case (WM_LBUTTONDOWN wParam gridPos)
  then show ?thesis using benign_inv[OF inv benign_OnLButtonDown] by simp
next
  case (WM_LBUTTONUP wParam gridPos)
  then show ?thesis using field_inv_OnLButtonUp[OF inv] g by (simp add: message_in_grid_def)
next
  case (WM_RBUTTONDOWN wParam gridPos)
  then show ?thesis using field_inv_OnRButtonDown[OF inv] g by (simp add: message_in_grid_def)
next
  case (WM_RBUTTONUP wParam gridPos)
  then show ?thesis using field_inv_OnRButtonUp[OF inv] by simp
next
  case (WM_MBUTTONDOWN wParam gridPos)
  then show ?thesis using benign_inv[OF inv benign_OnMButtonDown] by simp
next
  case (WM_MBUTTONUP wParam gridPos)
  then show ?thesis using field_inv_OnMButtonUp[OF inv] by simp
next
  case (WM_MOUSEMOVE wParam gridPos tracked)
  then show ?thesis using benign_inv[OF inv benign_OnMouseMove] by simp
next
  case WM_MOUSELEAVE
  then show ?thesis using benign_inv[OF inv benign_OnMouseLeave] by simp
next
  case WM_OTHER
  then show ?thesis using inv by simp
qed

lemma reachable_field_inv: "reachable SampleVector s \<Longrightarrow> field_inv s"
proof (induction rule: reachable.induct)
  case (reachable_ctor width height cMines chording held lastPos)
  then show ?case by (rule field_inv_ctor)
next
  case (reachable_Resize s width height cMines)
  then show ?case by (intro field_inv_Resize)
next
  case (reachable_ResetGame s)
  then show ?case by (intro field_inv_ResetGame) (simp add: field_inv_def)
next
  case (reachable_ToggleQuestionMarkUsage s)
  then show ?case by (intro benign_inv[OF _ benign_ToggleQuestionMarkUsage])
next
  case (reachable_HandleMessage s msg)
  then show ?case by (intro field_inv_HandleMessage)
qed



section \<open>A game on three tiles\<close>

text \<open>
  A window of three columns and one row with one mine, played with the Randomizer that
  draws the first candidates: the first tile is pressed and released (the mine goes
  to the second tile), then the second tile is flagged, or pressed and released, or
  the third tile is pressed and released.
\<close>

lemmas eval_defs =
  field_3x1_def tile_def no_buttons_def MineTile_default_def
  IsGameActive_def IsGameLost_def IsGameWon_def u32_def u32_add_int_def u32_sub_def
  tile_xy_def tile_at_def set_tile_def SetTileState_def SetTileMark_def SetTileContent_def
  GetTileGrid_def upto_m1_1 GetNumberAdjacentMines_def number_content_def number_tile_def
  GenerateNumbers_def exclusion_radius_def GenerateMines_candidates_def GenerateMines_def
  SampleVector_first_def reveal_index_def flood_visit_def flood_cond_def flood_body_def
  SetTileRevealed_def click_tile_def unclick_tile_def BeginChord_def count_flags_def EndChord_def
  cycle_mark_def OnLButtonDown_def OnLButtonUp_def OnRButtonDown_def Let_def

lemma replicate_3: "replicate 3 x = [x, x, x]"
  by (simp add: numeral_3_eq_3)

lemma step_press: "HandleMessage SampleVector_first (WM_LBUTTONDOWN no_buttons (0, 0)) field_3x1_fresh = field_3x1_pressed"
  by (simp add: field_3x1_fresh_def field_3x1_pressed_def eval_defs)

lemma field_3x1_ctor: "MinefieldWindow_ctor 3 1 1 False False (0, 0) = field_3x1_fresh"
  by (simp add: MinefieldWindow_ctor_def field_3x1_fresh_def eval_defs replicate_3)

lemma upto_nat_3: "[0..<3] = [0, 1, 2]"
  by (simp add: upt_rec)

lemma step_flag: "HandleMessage SampleVector_first (WM_RBUTTONDOWN no_buttons (1, 0)) field_3x1_opened = field_3x1_flagged"
  by (simp add: field_3x1_opened_def field_3x1_flagged_def eval_defs)

lemma step_press_mine: "HandleMessage SampleVector_first (WM_LBUTTONDOWN no_buttons (1, 0)) field_3x1_opened = field_3x1_mine_pressed"
  by (simp add: field_3x1_opened_def field_3x1_mine_pressed_def eval_defs)

lemma step_lose: "HandleMessage SampleVector_first (WM_LBUTTONUP no_buttons (1, 0)) field_3x1_mine_pressed = field_3x1_lost"
  by (simp add: field_3x1_mine_pressed_def field_3x1_lost_def eval_defs)

lemma step_open: "HandleMessage SampleVector_first (WM_LBUTTONUP no_buttons (0, 0)) field_3x1_pressed = field_3x1_opened"
  by (simp add: field_3x1_pressed_def field_3x1_opened_def eval_defs upto_nat_3)

lemma in_grid_3x1:
  "message_in_grid field_3x1_fresh (WM_LBUTTONDOWN no_buttons (0, 0))"
  "message_in_grid field_3x1_pressed (WM_LBUTTONUP no_buttons (0, 0))"
  "message_in_grid field_3x1_opened (WM_RBUTTONDOWN no_buttons (1, 0))"
  "message_in_grid field_3x1_opened (WM_LBUTTONDOWN no_buttons (1, 0))"
  "message_in_grid field_3x1_mine_pressed (WM_LBUTTONUP no_buttons (1, 0))"
  by (simp_all add: message_in_grid_def in_grid_def field_3x1_fresh_def field_3x1_pressed_def
      field_3x1_opened_def field_3x1_mine_pressed_def field_3x1_def)

lemma reachable_3x1_opened: "reachable SampleVector_first field_3x1_opened"
proof -
  have "reachable SampleVector_first field_3x1_fresh"
    using reachable_ctor[of 3 1 SampleVector_first 1 False False "(0, 0)"]
    unfolding field_3x1_ctor by (simp add: valid_size_def)
  from reachable_HandleMessage[OF this in_grid_3x1(1)]
  have "reachable SampleVector_first field_3x1_pressed" by (simp only: step_press)
  from reachable_HandleMessage[OF this in_grid_3x1(2)]
  show ?thesis by (simp only: step_open)
qed

lemma reachable_3x1_flagged: "reachable SampleVector_first field_3x1_flagged"
  using reachable_HandleMessage[OF reachable_3x1_opened in_grid_3x1(3)]
  by (simp only: step_flag)

lemma reachable_3x1_lost: "reachable SampleVector_first field_3x1_lost"
proof -
  from reachable_HandleMessage[OF reachable_3x1_opened in_grid_3x1(4)]
  have "reachable SampleVector_first field_3x1_mine_pressed" by (simp only: step_press_mine)
  from reachable_HandleMessage[OF this in_grid_3x1(5)]
  show ?thesis by (simp only: step_lose)
qed





section \<open>The counters (C7)\<close>

text \<open>
  Claim C7. In every reachable window \<^verbatim>\<open>m_cRevealedTiles\<close> is the number of tiles
  whose state is \<^verbatim>\<open>REVEALED\<close> and \<^verbatim>\<open>m_cFlaggedTiles\<close> the number of tiles whose mark
  is \<^verbatim>\<open>FLAG\<close>. The reachable windows are closed under every operation (construction,
  resize, reset, the question-mark toggle and every mouse message: reveal, flood,
  chord, marking, previews), so each of them preserves both equalities.
\<close>

theorem counters_count_tiles:
  "reachable SampleVector s \<Longrightarrow>
   m_cRevealedTiles s = length (filter (\<lambda>t. tileState t = REVEALED) (m_aMineTiles s)) \<and>
   m_cFlaggedTiles s = length (filter (\<lambda>t. tileMark t = FLAG) (m_aMineTiles s))"
  using reachable_field_inv[of SampleVector s]
  by (simp add: field_inv_def count_revealed_def count_flagged_def)

theorem counters_count_tiles_witness:
  "reachable SampleVector_first field_3x1_flagged \<and>
   m_cRevealedTiles field_3x1_flagged = 1 \<and>
   length (filter (\<lambda>t. tileState t = REVEALED) (m_aMineTiles field_3x1_flagged)) = 1 \<and>
   m_cFlaggedTiles field_3x1_flagged = 1 \<and>
   length (filter (\<lambda>t. tileMark t = FLAG) (m_aMineTiles field_3x1_flagged)) = 1"
  using counters_count_tiles[OF reachable_3x1_flagged] reachable_3x1_flagged
  by (simp add: field_3x1_flagged_def field_3x1_def tile_def)

section \<open>Flags stay hidden (C10)\<close>



section \<open>Resize (C6)\<close>

text \<open>
  Claim C6, as the code has it. For a valid size and \<open>cMines \<le> width * height\<close>, and
  any window: \<^verbatim>\<open>Resize\<close> reports a change iff one of the three arguments differs from
  the stored \<^verbatim>\<open>m_width\<close>, \<^verbatim>\<open>m_height\<close>, \<^verbatim>\<open>m_cMines\<close>; without a change the window
  is returned as it was; with a change the window is a different one,
  \<^verbatim>\<open>m_cRevealedTiles\<close> and \<^verbatim>\<open>m_cFlaggedTiles\<close> are 0 and the game is active.
\<close>

theorem Resize_resets_when_changed:
  assumes "valid_size width height" and "cMines \<le> width * height"
  shows "(snd (Resize width height cMines s) \<longleftrightarrow>
            \<not> (m_width s = width \<and> m_height s = height \<and> m_cMines s = cMines)) \<and>
         (\<not> snd (Resize width height cMines s) \<longrightarrow> fst (Resize width height cMines s) = s) \<and>
         (snd (Resize width height cMines s) \<longrightarrow>
            fst (Resize width height cMines s) \<noteq> s \<and>
            m_cRevealedTiles (fst (Resize width height cMines s)) = 0 \<and>
            m_cFlaggedTiles (fst (Resize width height cMines s)) = 0 \<and>
            IsGameActive (fst (Resize width height cMines s)))"
proof (cases "m_width s \<noteq> width \<or> m_height s \<noteq> height \<or> m_cMines s \<noteq> cMines")
  case False
  then show ?thesis by (simp add: Resize_def)
next
  case True
  define s' where "s' = fst (Resize width height cMines s)"
  have f: "m_width s' = width" "m_height s' = height" "m_cMines s' = cMines"
    "m_cRevealedTiles s' = 0" "m_cFlaggedTiles s' = 0" "\<not> m_bGameLost s'"
    using True assms by (simp_all add: s'_def Resize_def Let_def ResetGame_def valid_size_u32)
  have ne: "s' \<noteq> s" using True f by auto
  have act: "IsGameActive s'" using f by (simp add: IsGameActive_def IsGameLost_def IsGameWon_def)
  have sn: "snd (Resize width height cMines s)" using True by (simp add: Resize_def Let_def)
  show ?thesis using True f ne act sn unfolding s'_def by simp
qed

theorem Resize_resets_when_changed_witness:
  "valid_size 2 1 \<and> (0 :: nat) \<le> 2 * 1 \<and>
   snd (Resize 2 1 0 field_3x1_lost) \<and>
   m_cRevealedTiles (fst (Resize 2 1 0 field_3x1_lost)) = 0 \<and>
   m_cFlaggedTiles (fst (Resize 2 1 0 field_3x1_lost)) = 0 \<and>
   IsGameActive (fst (Resize 2 1 0 field_3x1_lost)) \<and>
   \<not> snd (Resize 3 1 1 field_3x1_lost) \<and>
   fst (Resize 3 1 1 field_3x1_lost) = field_3x1_lost"
  using Resize_resets_when_changed[of 2 1 0 field_3x1_lost]
    Resize_resets_when_changed[of 3 1 1 field_3x1_lost]
  by (simp add: valid_size_def field_3x1_lost_def field_3x1_def)

text \<open>
  The claim as it is written promises the zero counters and the active game after every
  call. A call with the stored arguments changes nothing: the lost game on three tiles
  stays lost with two revealed tiles, and the flagged one keeps its flag count.
\<close>

theorem Resize_same_parameters_counterexample:
  "reachable SampleVector_first field_3x1_lost \<and> valid_size 3 1 \<and> (1 :: nat) \<le> 3 * 1 \<and>
   m_cRevealedTiles (fst (Resize 3 1 1 field_3x1_lost)) = 2 \<and>
   \<not> IsGameActive (fst (Resize 3 1 1 field_3x1_lost)) \<and>
   reachable SampleVector_first field_3x1_flagged \<and>
   m_cFlaggedTiles (fst (Resize 3 1 1 field_3x1_flagged)) = 1"
  using reachable_3x1_lost reachable_3x1_flagged
  by (simp add: valid_size_def Resize_def field_3x1_lost_def field_3x1_flagged_def field_3x1_def
      IsGameActive_def IsGameLost_def)

section \<open>The end of a chord (C2)\<close>

lemma reveal_only_refl [simp]: "reveal_only s s"
  by (simp add: reveal_only_def)

lemma reveal_only_trans:
  assumes a: "reveal_only s t" and b: "reveal_only t u"
  shows "reveal_only s u"
proof -
  have l: "length (m_aMineTiles t) = length (m_aMineTiles s)" using a by (simp add: reveal_only_def)
  have "tile_at u k = tile_at s k \<or>
         (tileMark (tile_at s k) \<noteq> FLAG \<and> tileState (tile_at s k) \<noteq> REVEALED \<and>
          tile_at u k = (tile_at s k)\<lparr>tileState := REVEALED\<rparr>)"
    if k: "k < length (m_aMineTiles s)" for k
  proof -
    have 1: "tile_at t k = tile_at s k \<or>
         (tileMark (tile_at s k) \<noteq> FLAG \<and> tileState (tile_at s k) \<noteq> REVEALED \<and>
          tile_at t k = (tile_at s k)\<lparr>tileState := REVEALED\<rparr>)"
      using a k by (simp add: reveal_only_def)
    have 2: "tile_at u k = tile_at t k \<or>
         (tileMark (tile_at t k) \<noteq> FLAG \<and> tileState (tile_at t k) \<noteq> REVEALED \<and>
          tile_at u k = (tile_at t k)\<lparr>tileState := REVEALED\<rparr>)"
      using b k l by (simp add: reveal_only_def)
    from 1 2 show ?thesis by auto
  qed
  then show ?thesis using a b by (simp add: reveal_only_def)
qed

lemma reveal_only_tile:
  assumes "reveal_only s s'" "k < length (m_aMineTiles s)"
  shows "tileMark (tile_at s' k) = tileMark (tile_at s k)"
    "tileState (tile_at s k) = REVEALED \<Longrightarrow> tileState (tile_at s' k) = REVEALED"
    "tileMark (tile_at s k) = FLAG \<Longrightarrow> tile_at s' k = tile_at s k"
    "tileState (tile_at s' k) = REVEALED \<Longrightarrow> tileState (tile_at s k) \<noteq> REVEALED \<Longrightarrow>
       tileMark (tile_at s k) \<noteq> FLAG"
  using assms unfolding reveal_only_def by (elim conjE allE[of _ k], auto)+

lemma SetTileRevealed_reveal_only:
  assumes wf: "wf_field s" and x: "x < m_width s" and y: "y < m_height s"
  shows "reveal_only s (SetTileRevealed x y s)" "wf_field (SetTileRevealed x y s)"
    "tileMark (tile_at s (x + y * m_width s)) \<noteq> FLAG \<Longrightarrow>
     tileState (tile_at (SetTileRevealed x y s) (x + y * m_width s)) = REVEALED"
proof -
  define i where "i = x + y * m_width s"
  define fresh where "fresh = (tileState (tile_at s i) \<noteq> REVEALED \<and> tileMark (tile_at s i) \<noteq> FLAG)"
  define lost where "lost = (m_bGameLost s \<or> (fresh \<and> tileContent (tile_at s i) = MINE))"
  from SetTileRevealed_spec[OF wf x y] obtain t where
    t: "reveals (insert i (near_empty s)) s t" "fresh \<longrightarrow> tileState (tile_at t i) = REVEALED"
      "\<not> fresh \<longrightarrow> t = s" "SetTileRevealed x y s = t\<lparr>m_bGameLost := lost\<rparr>"
    unfolding i_def fresh_def lost_def by blast
  show "reveal_only s (SetTileRevealed x y s)"
    using t(1) unfolding t(4) reveal_only_def reveals_def by auto
  show "wf_field (SetTileRevealed x y s)"
    using reveals_wf[OF wf t(1)] by (simp add: t(4) field_inv_lost_irrelevant_parts)
  show "tileState (tile_at (SetTileRevealed x y s) (x + y * m_width s)) = REVEALED"
    if "tileMark (tile_at s (x + y * m_width s)) \<noteq> FLAG"
    using that t(2,3) by (cases fresh) (auto simp: t(4) fresh_def i_def)
qed

lemma chord_reveal_fold:
  assumes "wf_field s" "\<forall>k \<in> set g. k < length (m_aMineTiles s)"
  defines "s' \<equiv> fold (\<lambda>tile s1. SetTileRevealed (tile mod m_width s1) (tile div m_width s1) s1) g s"
  shows "reveal_only s s' \<and> wf_field s' \<and>
         (\<forall>k \<in> set g. tileMark (tile_at s k) \<noteq> FLAG \<longrightarrow> tileState (tile_at s' k) = REVEALED)"
  using assms(1,2) unfolding s'_def
proof (induction g arbitrary: s)
  case Nil
  then show ?case by simp
next
  case (Cons k g)
  have kl: "k < length (m_aMineTiles s)" using Cons.prems by simp
  note md = mod_div_in_grid[OF Cons.prems(1) kl]
  define s1 where "s1 = SetTileRevealed (k mod m_width s) (k div m_width s) s"
  note st = SetTileRevealed_reveal_only[OF Cons.prems(1) md(1,2), folded s1_def, unfolded md(3)]
  have l1: "length (m_aMineTiles s1) = length (m_aMineTiles s)" using st(1) by (simp add: reveal_only_def)
  have g1: "\<forall>j \<in> set g. j < length (m_aMineTiles s1)" using Cons.prems(2) l1 by simp
  define s2 where "s2 = fold (\<lambda>tile s1. SetTileRevealed (tile mod m_width s1) (tile div m_width s1) s1) g s1"
  from Cons.IH[OF st(2) g1, folded s2_def] have
    ih: "reveal_only s1 s2" "wf_field s2"
      "\<forall>j \<in> set g. tileMark (tile_at s1 j) \<noteq> FLAG \<longrightarrow> tileState (tile_at s2 j) = REVEALED"
    by simp_all
  have f: "fold (\<lambda>tile s1. SetTileRevealed (tile mod m_width s1) (tile div m_width s1) s1) (k # g) s = s2"
    by (simp add: s2_def s1_def)
  have r: "reveal_only s s2" by (rule reveal_only_trans[OF st(1) ih(1)])
  have "tileState (tile_at s2 j) = REVEALED"
    if j: "j \<in> set (k # g)" "tileMark (tile_at s j) \<noteq> FLAG" for j
  proof (cases "j = k")
    case True
    have "tileState (tile_at s1 k) = REVEALED" using st(3) j(2) True by simp
    then show ?thesis using reveal_only_tile(2)[OF ih(1)] kl l1 True by simp
  next
    case False
    then have jg: "j \<in> set g" using j(1) by simp
    then have jl: "j < length (m_aMineTiles s)" using Cons.prems(2) by simp
    have "tileMark (tile_at s1 j) \<noteq> FLAG" using reveal_only_tile(1)[OF st(1) jl] j(2) by simp
    then show ?thesis using ih(3) jg by simp
  qed
  then show ?case unfolding f using r ih(2) by blast
qed

lemma unclick_fold_tile:
  assumes "k < length (m_aMineTiles s)"
  shows "tile_at (fold unclick_tile g s) k =
     (if k \<in> set g \<and> tileState (tile_at s k) = CLICKED
      then (tile_at s k)\<lparr>tileState := HIDDEN\<rparr> else tile_at s k)"
  using assms
proof (induction g arbitrary: s)
  case Nil
  then show ?case by simp
next
  case (Cons i g)
  define s1 where "s1 = unclick_tile i s"
  have l1: "length (m_aMineTiles s1) = length (m_aMineTiles s)"
    by (simp add: s1_def unclick_tile_def SetTileState_def set_tile_def)
  have t1: "tile_at s1 j = (if j = i \<and> tileState (tile_at s j) = CLICKED
      then (tile_at s j)\<lparr>tileState := HIDDEN\<rparr> else tile_at s j)"
    if "j < length (m_aMineTiles s)" for j
    using that by (auto simp: s1_def unclick_tile_def SetTileState_def set_tile_def tile_at_def)
  have k1: "k < length (m_aMineTiles s1)" using Cons.prems l1 by simp
  have "tile_at (fold unclick_tile (i # g) s) k = tile_at (fold unclick_tile g s1) k"
    by (simp add: s1_def)
  also have "\<dots> = (if k \<in> set g \<and> tileState (tile_at s1 k) = CLICKED
      then (tile_at s1 k)\<lparr>tileState := HIDDEN\<rparr> else tile_at s1 k)"
    by (rule Cons.IH[OF k1])
  also have "\<dots> = (if k \<in> set (i # g) \<and> tileState (tile_at s k) = CLICKED
      then (tile_at s k)\<lparr>tileState := HIDDEN\<rparr> else tile_at s k)"
    using t1[OF Cons.prems] by auto
  finally show ?case .
qed

lemma unclick_fold_frame:
  "m_cRevealedTiles (fold unclick_tile g s) = m_cRevealedTiles s"
  "length (m_aMineTiles (fold unclick_tile g s)) = length (m_aMineTiles s)"
  using benign_fold[of unclick_tile s g, OF benign_unclick_tile] by (simp_all add: benign_def)

lemma tile_at_chording [simp]: "tile_at (s\<lparr>m_bChording := b\<rparr>) k = tile_at s k"
  by (simp add: tile_at_def)

lemma grid_3x1:
  "GetTileGrid (field_3x1 r f l ts) 0 0 1 = [0, 1]"
  "GetTileGrid (field_3x1 r f l ts) 1 0 1 = [0, 1, 2]"
  by (simp_all add: eval_defs)

text \<open>
  Claim C2, as the code has it. On a well-formed field: if the centre tile is
  \<^verbatim>\<open>REVEALED\<close> and the number of flagged tiles of the grid around it equals the
  number of its mines, \<^verbatim>\<open>EndChord\<close> calls \<^verbatim>\<open>SetTileRevealed\<close> on every tile of the
  grid, after which every tile of the grid without a flag is \<^verbatim>\<open>REVEALED\<close> and every
  flagged tile is as it was. Otherwise \<^verbatim>\<open>m_cRevealedTiles\<close> is unchanged, no tile
  becomes \<^verbatim>\<open>REVEALED\<close>, and every tile of the grid that was \<^verbatim>\<open>CLICKED\<close> is \<^verbatim>\<open>HIDDEN\<close>.
\<close>

theorem EndChord_reveals_unflagged:
  assumes wf: "wf_field s"
  shows "(tileState (tile_xy s x y) = REVEALED \<and> count_flags s x y = GetNumberAdjacentMines s x y \<longrightarrow>
           (\<forall>k \<in> set (GetTileGrid s x y 1).
              (tileMark (tile_at s k) \<noteq> FLAG \<longrightarrow> tileState (tile_at (EndChord x y s) k) = REVEALED) \<and>
              (tileMark (tile_at s k) = FLAG \<longrightarrow> tile_at (EndChord x y s) k = tile_at s k))) \<and>
         (\<not> (tileState (tile_xy s x y) = REVEALED \<and> count_flags s x y = GetNumberAdjacentMines s x y) \<longrightarrow>
           m_cRevealedTiles (EndChord x y s) = m_cRevealedTiles s \<and>
           (\<forall>k < length (m_aMineTiles s).
              tileState (tile_at (EndChord x y s) k) = REVEALED \<longrightarrow> tileState (tile_at s k) = REVEALED) \<and>
           (\<forall>k \<in> set (GetTileGrid s x y 1).
              tileState (tile_at s k) = CLICKED \<longrightarrow> tileState (tile_at (EndChord x y s) k) = HIDDEN))"
proof (cases "tileState (tile_xy s x y) = REVEALED \<and> count_flags s x y = GetNumberAdjacentMines s x y")
  case True
  define g where "g = GetTileGrid s x y 1"
  define s' where "s' = fold (\<lambda>tile s1. SetTileRevealed (tile mod m_width s1) (tile div m_width s1) s1) g s"
  have gl: "\<forall>k \<in> set g. k < length (m_aMineTiles s)"
    unfolding g_def using grid_index_in_range[OF wf] by blast
  from chord_reveal_fold[OF wf gl, folded s'_def] have
    c: "reveal_only s s'" "\<forall>k \<in> set g. tileMark (tile_at s k) \<noteq> FLAG \<longrightarrow> tileState (tile_at s' k) = REVEALED"
    by simp_all
  have e: "EndChord x y s = s'\<lparr>m_bChording := False\<rparr>"
    using True by (simp add: EndChord_def s'_def g_def)
  have "tile_at s' k = tile_at s k" if "k \<in> set g" "tileMark (tile_at s k) = FLAG" for k
    using reveal_only_tile(3)[OF c(1)] gl that by simp
  then show ?thesis using True c(2) by (simp add: e g_def[symmetric])
next
  case False
  define g where "g = GetTileGrid s x y 1"
  have e: "EndChord x y s = (fold unclick_tile g s)\<lparr>m_bChording := False\<rparr>"
    using False by (auto simp: EndChord_def g_def)
  have gl: "\<forall>k \<in> set g. k < length (m_aMineTiles s)"
    unfolding g_def using grid_index_in_range[OF wf] by blast
  have a: "m_cRevealedTiles (EndChord x y s) = m_cRevealedTiles s"
    by (simp add: e unclick_fold_frame)
  have b: "tileState (tile_at (EndChord x y s) k) = REVEALED \<longrightarrow> tileState (tile_at s k) = REVEALED"
    if "k < length (m_aMineTiles s)" for k
    by (simp add: e unclick_fold_tile[OF that])
  have c: "tileState (tile_at s k) = CLICKED \<longrightarrow> tileState (tile_at (EndChord x y s) k) = HIDDEN"
    if "k \<in> set g" for k
    using that gl by (simp add: e unclick_fold_tile)
  show ?thesis using False a b c[unfolded g_def] by blast
qed

theorem EndChord_reveals_unflagged_witness:
  "wf_field field_3x1_chord \<and>
   tileState (tile_xy field_3x1_chord 1 0) = REVEALED \<and>
   count_flags field_3x1_chord 1 0 = GetNumberAdjacentMines field_3x1_chord 1 0 \<and>
   tileMark (tile_at field_3x1_chord 0) = FLAG \<and>
   tile_at (EndChord 1 0 field_3x1_chord) 0 = tile_at field_3x1_chord 0 \<and>
   tileMark (tile_at field_3x1_chord 2) \<noteq> FLAG \<and>
   tileState (tile_at (EndChord 1 0 field_3x1_chord) 2) = REVEALED \<and>
   wf_field field_3x1_mine_pressed \<and>
   count_flags field_3x1_mine_pressed 0 0 \<noteq> GetNumberAdjacentMines field_3x1_mine_pressed 0 0 \<and>
   m_cRevealedTiles (EndChord 0 0 field_3x1_mine_pressed) = m_cRevealedTiles field_3x1_mine_pressed \<and>
   tileState (tile_at field_3x1_mine_pressed 1) = CLICKED \<and>
   tileState (tile_at (EndChord 0 0 field_3x1_mine_pressed) 1) = HIDDEN"
  using EndChord_reveals_unflagged[of field_3x1_chord 1 0]
    EndChord_reveals_unflagged[of field_3x1_mine_pressed 0 0]
  by (simp add: field_3x1_chord_def field_3x1_mine_pressed_def wf_field_def eval_defs)

text \<open>
  The claim as it is written has all neighbours revealed when the counts match. On the
  flagged game on three tiles the centre \<open>(0, 0)\<close> is revealed, one neighbour is
  flagged and one mine is adjacent, and the flagged neighbour stays \<^verbatim>\<open>HIDDEN\<close>.
\<close>

theorem EndChord_flagged_neighbour_counterexample:
  "reachable SampleVector_first field_3x1_flagged \<and> in_grid field_3x1_flagged (0, 0) \<and>
   tileState (tile_xy field_3x1_flagged 0 0) = REVEALED \<and>
   count_flags field_3x1_flagged 0 0 = 1 \<and> GetNumberAdjacentMines field_3x1_flagged 0 0 = 1 \<and>
   GetTileGrid field_3x1_flagged 0 0 1 = [0, 1] \<and>
   tileState (tile_at (EndChord 0 0 field_3x1_flagged) 1) = HIDDEN"
  using reachable_3x1_flagged
  by (simp add: field_3x1_flagged_def eval_defs in_grid_def)

section \<open>Mine generation\<close>

lemma concat_map_if_filter:
  "concat (map (\<lambda>z. if c z then g z else []) zs) = concat (map g (filter c zs))"
  by (induction zs) simp_all

lemma concat_map_if_single:
  "concat (map (\<lambda>z. if c z then [f z] else []) zs) = map f (filter c zs)"
  by (induction zs) simp_all

lemma GetTileGrid_filter:
  "0 \<le> r \<Longrightarrow> GetTileGrid s x y r =
     concat (map (\<lambda>yOffset.
        map (\<lambda>xOffset. u32 (u32_add_int x xOffset + u32 (u32_add_int y yOffset * m_width s)))
          (filter (\<lambda>xOffset. u32_add_int x xOffset < m_width s) [- r..r]))
       (filter (\<lambda>yOffset. u32_add_int y yOffset < m_height s) [- r..r]))"
  by (simp add: GetTileGrid_def concat_map_if_filter concat_map_if_single)

lemma u32_add_int_true:
  assumes "n < w" "w < 4294967296" "- 1 \<le> k" "k \<le> 1" "u32_add_int n k < w"
  shows "int (u32_add_int n k) = int n + k"
proof (cases "0 \<le> int n + k")
  case True
  have "int n + k < 4294967296" using assms by linarith
  then have "(int n + k) mod 4294967296 = int n + k" using True by simp
  then show ?thesis using True by (simp add: u32_add_int_def)
next
  case False
  then have k: "k = - 1" and n: "n = 0" using assms(3) by linarith+
  have "u32_add_int n k = 4294967295" by (simp add: u32_add_int_def k n)
  then show ?thesis using assms(2,5) by simp
qed

lemma sorted_rows:
  fixes fx fy :: "int \<Rightarrow> nat"
  assumes "sorted_wrt (<) ys" "sorted_wrt (<) xs"
    and mx: "\<And>a b. a \<in> set xs \<Longrightarrow> b \<in> set xs \<Longrightarrow> a < b \<Longrightarrow> fx a < fx b"
    and my: "\<And>a b. a \<in> set ys \<Longrightarrow> b \<in> set ys \<Longrightarrow> a < b \<Longrightarrow> fy a < fy b"
    and bx: "\<And>a. a \<in> set xs \<Longrightarrow> fx a < w"
  shows "sorted_wrt (<) (concat (map (\<lambda>yo. map (\<lambda>xo. fx xo + fy yo * w) xs) ys))"
  using assms(1) my
proof (induction ys)
  case Nil
  show ?case by simp
next
  case (Cons yo ys)
  have row: "sorted_wrt (<) (map (\<lambda>xo. fx xo + fy yo * w) xs)"
    unfolding sorted_wrt_map
    by (rule sorted_wrt_mono_rel[OF _ assms(2)]) (simp add: mx)
  have rest: "sorted_wrt (<) (concat (map (\<lambda>yo. map (\<lambda>xo. fx xo + fy yo * w) xs) ys))"
    using Cons by simp
  have cross: "fx a + fy yo * w < fx b + fy yo' * w"
    if "a \<in> set xs" "b \<in> set xs" "yo' \<in> set ys" for a b yo'
  proof -
    have "yo < yo'" using Cons.prems(1) that(3) by simp
    then have "fy yo < fy yo'" using Cons.prems(2) that(3) by simp
    then have "Suc (fy yo) * w \<le> fy yo' * w" by (intro mult_le_mono1) simp
    moreover have "fx a + fy yo * w < Suc (fy yo) * w" using bx[OF that(1)] by simp
    ultimately show ?thesis by linarith
  qed
  show ?case using row rest cross by (auto simp: sorted_wrt_append)
qed

lemma GetTileGrid_sorted:
  assumes wf: "wf_field s" and x: "x < m_width s" and y: "y < m_height s"
    and r: "r = 0 \<or> r = 1"
  shows "sorted_wrt (<) (GetTileGrid s x y r)"
proof -
  have w: "m_width s < 4294967296" and h: "m_height s < 4294967296"
    and wh: "m_width s * m_height s < 4294967296"
    using wf by (simp_all add: wf_field_def)
  define xs where "xs = filter (\<lambda>xOffset. u32_add_int x xOffset < m_width s) [- r..r]"
  define ys where "ys = filter (\<lambda>yOffset. u32_add_int y yOffset < m_height s) [- r..r]"
  have r0: "0 \<le> r" using r by auto
  have sx: "sorted_wrt (<) xs" and sy: "sorted_wrt (<) ys"
    unfolding xs_def ys_def by (simp_all add: sorted_wrt_filter strict_sorted_iff)
  have xb: "- 1 \<le> a \<and> a \<le> 1 \<and> u32_add_int x a < m_width s" if "a \<in> set xs" for a
    using that r by (auto simp: xs_def)
  have yb: "- 1 \<le> a \<and> a \<le> 1 \<and> u32_add_int y a < m_height s" if "a \<in> set ys" for a
    using that r by (auto simp: ys_def)
  have tx: "int (u32_add_int x a) = int x + a" if "a \<in> set xs" for a
    using xb[OF that] by (intro u32_add_int_true[OF x w]) simp_all
  have ty: "int (u32_add_int y a) = int y + a" if "a \<in> set ys" for a
    using yb[OF that] by (intro u32_add_int_true[OF y h]) simp_all
  have mx: "u32_add_int x a < u32_add_int x b" if "a \<in> set xs" "b \<in> set xs" "a < b" for a b
    using tx[OF that(1)] tx[OF that(2)] that(3) by linarith
  have my: "u32_add_int y a < u32_add_int y b" if "a \<in> set ys" "b \<in> set ys" "a < b" for a b
    using ty[OF that(1)] ty[OF that(2)] that(3) by linarith
  have cell: "u32 (u32_add_int x a + u32 (u32_add_int y b * m_width s))
            = u32_add_int x a + u32_add_int y b * m_width s"
    if "a \<in> set xs" "b \<in> set ys" for a b
  proof -
    have "u32_add_int x a + u32_add_int y b * m_width s < m_width s * m_height s"
      using xb[OF that(1)] yb[OF that(2)] by (intro index_bound) simp_all
    then have lt: "u32_add_int x a + u32_add_int y b * m_width s < 4294967296" using wh by simp
    then have "u32_add_int y b * m_width s < 4294967296" by simp
    then show ?thesis using lt by (simp add: u32_id)
  qed
  have "GetTileGrid s x y r =
      concat (map (\<lambda>yo. map (\<lambda>xo. u32 (u32_add_int x xo + u32 (u32_add_int y yo * m_width s))) xs) ys)"
    unfolding xs_def ys_def by (rule GetTileGrid_filter[OF r0])
  also have "\<dots> = concat (map (\<lambda>yo. map (\<lambda>xo. u32_add_int x xo + u32_add_int y yo * m_width s) xs) ys)"
    using cell by (intro arg_cong[where f = concat] map_cong) simp_all
  finally have e: "GetTileGrid s x y r =
      concat (map (\<lambda>yo. map (\<lambda>xo. u32_add_int x xo + u32_add_int y yo * m_width s) xs) ys)" .
  show ?thesis
    unfolding e using xb by (intro sorted_rows[OF sy sx mx my]) simp_all
qed

lemma tilesToToggle_loop_filter:
  assumes "sorted_wrt (<) tiles" "sorted_wrt (<) excluded" "set excluded \<subseteq> set tiles"
  shows "tilesToToggle_loop tiles excluded = filter (\<lambda>tile. tile \<notin> set excluded) tiles"
  using assms
proof (induction tiles arbitrary: excluded)
  case Nil
  then show ?case by simp
next
  case (Cons tile rest)
  have gt: "\<forall>t \<in> set rest. tile < t" and sr: "sorted_wrt (<) rest" using Cons.prems(1) by simp_all
  show ?case
  proof (cases excluded)
    case Nil
    have "tilesToToggle_loop rest [] = filter (\<lambda>tile. tile \<notin> set []) rest"
      by (rule Cons.IH[OF sr]) simp_all
    then show ?thesis using Nil by simp
  next
    case (Cons e es)
    have ge: "\<forall>t \<in> set es. e < t" and se: "sorted_wrt (<) es" using Cons.prems(2) Cons by simp_all
    show ?thesis
    proof (cases "tile < e")
      case True
      then have nin: "tile \<notin> set excluded" using ge Cons by auto
      then have sub: "set excluded \<subseteq> set rest" using Cons.prems(3) by auto
      have "tilesToToggle_loop rest excluded = filter (\<lambda>tile. tile \<notin> set excluded) rest"
        by (rule Cons.IH[OF sr Cons.prems(2) sub])
      then show ?thesis using True nin Cons by simp
    next
      case False
      have "e \<in> set (tile # rest)" using Cons.prems(3) Cons by simp
      then have et: "e = tile" using False gt by auto
      have sub: "set es \<subseteq> set rest"
      proof
        fix t assume t: "t \<in> set es"
        then have "tile < t" using ge et by simp
        moreover have "t \<in> set (tile # rest)" using Cons.prems(3) Cons t by auto
        ultimately show "t \<in> set rest" by auto
      qed
      have ih: "tilesToToggle_loop rest es = filter (\<lambda>tile. tile \<notin> set es) rest"
        by (rule Cons.IH[OF sr se sub])
      have "filter (\<lambda>t. t \<notin> set es) rest = filter (\<lambda>t. t \<notin> set excluded) rest"
        using gt et Cons by (intro filter_cong) auto
      then show ?thesis using False ih et Cons by simp
    qed
  qed
qed

lemma GenerateMines_candidates_eq:
  assumes wf: "wf_field s" and x: "x < m_width s" and y: "y < m_height s"
  shows "GenerateMines_candidates s x y =
     filter (\<lambda>tile. tile \<notin> set (GetTileGrid s x y (exclusion_radius s))) [0..<length (m_aMineTiles s)]"
proof -
  have r: "exclusion_radius s = 0 \<or> exclusion_radius s = 1" by (simp add: exclusion_radius_def)
  have sub: "set (GetTileGrid s x y (exclusion_radius s)) \<subseteq> set [0..<length (m_aMineTiles s)]"
    using grid_index_in_range[OF wf] by auto
  show ?thesis
    unfolding GenerateMines_candidates_def
    by (rule tilesToToggle_loop_filter[OF _ GetTileGrid_sorted[OF wf x y r] sub])
      (simp add: strict_sorted_iff)
qed

lemma SetTileContent_tile:
  "length (m_aMineTiles (SetTileContent t c s)) = length (m_aMineTiles s)"
  "i < length (m_aMineTiles s) \<Longrightarrow>
   tileContent (tile_at (SetTileContent t c s) i) = (if i = t then c else tileContent (tile_at s i))"
  by (auto simp: SetTileContent_def set_tile_def tile_at_def)

lemma fold_mine_content:
  assumes "i < length (m_aMineTiles s)"
  shows "(tileContent (tile_at (fold (\<lambda>tile. SetTileContent tile MINE) chosen s) i) = MINE) =
         (i \<in> set chosen \<or> tileContent (tile_at s i) = MINE)"
  using assms
proof (induction chosen arbitrary: s)
  case Nil
  show ?case by simp
next
  case (Cons t chosen)
  have l: "i < length (m_aMineTiles (SetTileContent t MINE s))"
    using Cons.prems by (simp add: SetTileContent_tile)
  show ?case
    using Cons.IH[OF l] SetTileContent_tile(2)[OF Cons.prems, of t MINE] by auto
qed

lemma block_in_grid:
  assumes wf: "wf_field s" and x: "x < m_width s" and y: "y < m_height s"
    and x': "x' < m_width s" "x' \<le> x + 1" "x \<le> x' + 1"
    and y': "y' < m_height s" "y' \<le> y + 1" "y \<le> y' + 1"
  shows "x' + y' * m_width s \<in> set (GetTileGrid s x y 1)"
proof -
  have w: "m_width s < 4294967296" and h: "m_height s < 4294967296"
    using wf by (simp_all add: wf_field_def)
  have ax: "u32_add_int x (int x' - int x) = x'"
    using x'(1) w by (simp add: u32_add_int_def)
  have ay: "u32_add_int y (int y' - int y) = y'"
    using y'(1) h by (simp add: u32_add_int_def)
  note xi = xy_index(2)[OF wf x'(1) y'(1)]
  have "u32 (u32_add_int x (int x' - int x) + u32 (u32_add_int y (int y' - int y) * m_width s))
      \<in> set (GetTileGrid s x y 1)"
    using x' y' by (intro GetTileGrid_member) (simp_all add: ax ay)
  then show ?thesis by (simp add: ax ay xi)
qed

lemma filter_out_length:
  assumes "distinct xs"
  shows "length xs \<le> length (filter (\<lambda>t. t \<notin> set ex) xs) + length ex"
proof -
  have "distinct (filter (\<lambda>t. t \<in> set ex) xs)" using assms by simp
  then have "length (filter (\<lambda>t. t \<in> set ex) xs) = card (set (filter (\<lambda>t. t \<in> set ex) xs))"
    by (rule distinct_card[symmetric])
  also have "\<dots> \<le> card (set ex)" by (intro card_mono) auto
  also have "\<dots> \<le> length ex" by (rule card_length)
  finally have "length (filter (\<lambda>t. t \<in> set ex) xs) \<le> length ex" .
  moreover have "length xs = length (filter (\<lambda>t. t \<in> set ex) xs) + length (filter (\<lambda>t. \<not> t \<in> set ex) xs)"
    by (simp add: sum_length_filter_compl)
  ultimately show ?thesis by simp
qed

lemma u32_sub_le: "b \<le> a \<Longrightarrow> a < 4294967296 \<Longrightarrow> u32_sub a b = a - b"
  by (simp add: u32_sub_def nat_diff_distrib')

lemma exclusion_radius_eq:
  assumes "wf_field s"
  shows "exclusion_radius s = (if m_cTiles s - m_cMines s < 9 then 0 else 1)"
proof -
  have "m_cMines s \<le> m_cTiles s" "m_cTiles s < 4294967296" using assms by (simp_all add: wf_field_def)
  then show ?thesis by (simp add: exclusion_radius_def u32_sub_le)
qed

text \<open>The tiles drawn by a Randomizer that keeps its contract are candidates.\<close>

lemma GenerateMines_chosen:
  assumes wf: "wf_field s" and x: "x < m_width s" and y: "y < m_height s"
    and c: "SampleVector_contract SampleVector"
    and enough: "m_cMines s + length (GetTileGrid s x y (exclusion_radius s)) \<le> m_cTiles s"
  defines "chosen \<equiv> SampleVector (GenerateMines_candidates s x y) (m_cMines s)"
  shows "length chosen = m_cMines s" "distinct chosen"
    "set chosen \<subseteq> {0..<length (m_aMineTiles s)} - set (GetTileGrid s x y (exclusion_radius s))"
proof -
  note ce = GenerateMines_candidates_eq[OF wf x y]
  have d: "distinct (GenerateMines_candidates s x y)" by (simp add: ce)
  have "length [0..<length (m_aMineTiles s)] \<le>
      length (GenerateMines_candidates s x y) + length (GetTileGrid s x y (exclusion_radius s))"
    unfolding ce by (rule filter_out_length) simp
  then have k: "m_cMines s \<le> length (GenerateMines_candidates s x y)"
    using enough wf by (simp add: wf_field_def)
  from c k d have r: "length chosen = m_cMines s \<and> distinct chosen \<and>
      set chosen \<subseteq> set (GenerateMines_candidates s x y)"
    unfolding SampleVector_contract_def chosen_def by blast
  show "length chosen = m_cMines s" "distinct chosen" using r by simp_all
  show "set chosen \<subseteq> {0..<length (m_aMineTiles s)} - set (GetTileGrid s x y (exclusion_radius s))"
    using r by (auto simp: ce)
qed

lemma GenerateMines_mine_iff:
  assumes wf: "wf_field s" and i: "i < length (m_aMineTiles s)"
  shows "(tileContent (tile_at (GenerateMines SampleVector x y s) i) = MINE) =
         (i \<in> set (SampleVector (GenerateMines_candidates s x y) (m_cMines s)) \<or>
          tileContent (tile_at s i) = MINE)"
proof -
  define s1 where "s1 = fold (\<lambda>tile. SetTileContent tile MINE)
      (SampleVector (GenerateMines_candidates s x y) (m_cMines s)) s"
  have g: "GenerateMines SampleVector x y s = GenerateNumbers s1"
    by (simp add: GenerateMines_def s1_def Let_def)
  have r1: "recontent s s1"
    unfolding s1_def by (rule recontent_fold) (rule recontent_SetTileContent)
  have wf1: "wf_field s1" by (rule recontent_wf[OF wf r1])
  have l1: "length (m_aMineTiles s1) = length (m_aMineTiles s)" using r1 by (simp add: recontent_def)
  have "(tileContent (tile_at (GenerateNumbers s1) i) = MINE) = (tileContent (tile_at s1 i) = MINE)"
    using GenerateNumbers_spec(2)[OF wf1] i l1 by (simp add: mines_kept_def)
  then show ?thesis unfolding g using fold_mine_content[OF i] by (simp add: s1_def)
qed

lemma SampleVector_first_contract: "SampleVector_contract SampleVector_first"
  by (auto simp: SampleVector_contract_def SampleVector_first_def dest: in_set_takeD)

lemma SampleVector_first_draws: "draws_from_candidates SampleVector_first"
  by (auto simp: draws_from_candidates_def SampleVector_first_def dest: in_set_takeD)

lemma grid_length_le_0: "length (GetTileGrid s x y 0) \<le> 1"
proof -
  have "length (map f (filter c [0 :: int])) \<le> 1" for f :: "int \<Rightarrow> nat" and c by simp
  then show ?thesis
    by (simp add: GetTileGrid_filter)
qed

text \<open>
  With fewer mines than tiles the draw is inside the Randomizer's contract, and a field
  without mines gets exactly \<^verbatim>\<open>m_cMines\<close> of them.
\<close>

lemma GenerateMines_count_mines:
  assumes wf: "wf_field s" and x: "x < m_width s" and y: "y < m_height s"
    and c: "SampleVector_contract SampleVector" and fresh: "no_mines s"
    and less: "m_cMines s < m_cTiles s"
  shows "count_mines (GenerateMines SampleVector x y s) = m_cMines s"
proof -
  define chosen where "chosen = SampleVector (GenerateMines_candidates s x y) (m_cMines s)"
  define s' where "s' = GenerateMines SampleVector x y s"
  have enough: "m_cMines s + length (GetTileGrid s x y (exclusion_radius s)) \<le> m_cTiles s"
  proof (cases "m_cTiles s - m_cMines s < 9")
    case True
    then have "exclusion_radius s = 0" by (simp add: exclusion_radius_eq[OF wf])
    then show ?thesis using grid_length_le_0[of s x y] less by simp
  next
    case False
    then have "exclusion_radius s = 1" by (simp add: exclusion_radius_eq[OF wf])
    then show ?thesis using grid_length_le[of s x y] False by simp
  qed
  note ch = GenerateMines_chosen[OF wf x y c enough, folded chosen_def]
  have l: "length (m_aMineTiles s') = length (m_aMineTiles s)"
    using GenerateMines_recontent(1)[OF wf, of SampleVector x y] by (simp add: recontent_def s'_def)
  have m: "(tileContent (m_aMineTiles s' ! i) = MINE) = (i \<in> set chosen)"
    if "i < length (m_aMineTiles s)" for i
    using GenerateMines_mine_iff[OF wf that, of SampleVector x y] fresh that
    by (simp add: no_mines_def s'_def chosen_def tile_at_def)
  have "{i. i < length (m_aMineTiles s') \<and> tileContent (m_aMineTiles s' ! i) = MINE} = set chosen"
    using m ch(3) by (auto simp: l)
  then have "count_mines s' = card (set chosen)"
    by (simp add: count_mines_def length_filter_conv_card)
  then show ?thesis using ch(1,2) by (simp add: distinct_card s'_def)
qed

lemma field_4x3_wf: "wf_field field_4x3" "no_mines field_4x3"
  "m_width field_4x3 = 4" "m_height field_4x3 = 3" "m_cTiles field_4x3 = 12" "m_cMines field_4x3 = 3"
  by (simp_all add: field_4x3_def MinefieldWindow_ctor_def u32_def Let_def wf_field_def no_mines_def
      tile_at_def MineTile_default_def)

section \<open>The first click (C5)\<close>

text \<open>
  Claim C5. On a well-formed field without mines, for a click in the grid and a
  Randomizer that keeps its contract: the exclusion radius is 0 exactly when
  \<^verbatim>\<open>m_cTiles - m_cMines < 9\<close> and 1 otherwise, and if \<^verbatim>\<open>m_cTiles - m_cMines \<ge> 9\<close> then
  after \<^verbatim>\<open>GenerateMines(x, y)\<close> no cell of the 3 by 3 block around \<open>(x, y)\<close>, clipped to
  the grid, is a \<^verbatim>\<open>MINE\<close>.
\<close>

theorem first_click_block_safe:
  assumes wf: "wf_field s" and x: "x < m_width s" and y: "y < m_height s"
    and c: "SampleVector_contract SampleVector" and fresh: "no_mines s"
  shows "(exclusion_radius s = 0 \<longleftrightarrow> m_cTiles s - m_cMines s < 9) \<and>
         (exclusion_radius s = 1 \<longleftrightarrow> \<not> m_cTiles s - m_cMines s < 9) \<and>
         (9 \<le> m_cTiles s - m_cMines s \<longrightarrow>
            (\<forall>x' y'. x' < m_width s \<and> y' < m_height s \<and> x' \<le> x + 1 \<and> x \<le> x' + 1 \<and>
                     y' \<le> y + 1 \<and> y \<le> y' + 1 \<longrightarrow>
               tileContent (tile_xy (GenerateMines SampleVector x y s) x' y') \<noteq> MINE))"
proof (intro conjI impI allI)
  show "exclusion_radius s = 0 \<longleftrightarrow> m_cTiles s - m_cMines s < 9"
    by (simp add: exclusion_radius_eq[OF wf])
  show "exclusion_radius s = 1 \<longleftrightarrow> \<not> m_cTiles s - m_cMines s < 9"
    by (simp add: exclusion_radius_eq[OF wf])
next
  fix x' y'
  assume big: "9 \<le> m_cTiles s - m_cMines s"
    and b: "x' < m_width s \<and> y' < m_height s \<and> x' \<le> x + 1 \<and> x \<le> x' + 1 \<and> y' \<le> y + 1 \<and> y \<le> y' + 1"
  have r: "exclusion_radius s = 1" using big by (simp add: exclusion_radius_eq[OF wf])
  have enough: "m_cMines s + length (GetTileGrid s x y (exclusion_radius s)) \<le> m_cTiles s"
    using big grid_length_le[of s x y] by (simp add: r)
  note ch = GenerateMines_chosen[OF wf x y c enough]
  define i where "i = x' + y' * m_width s"
  have ig: "i \<in> set (GetTileGrid s x y 1)"
    unfolding i_def using b by (intro block_in_grid[OF wf x y]) simp_all
  have il: "i < length (m_aMineTiles s)" by (rule grid_index_in_range[OF wf ig])
  have "i \<notin> set (SampleVector (GenerateMines_candidates s x y) (m_cMines s))"
    using ch(3) ig by (auto simp: r)
  moreover have "tileContent (tile_at s i) \<noteq> MINE" using fresh il by (simp add: no_mines_def)
  ultimately have "tileContent (tile_at (GenerateMines SampleVector x y s) i) \<noteq> MINE"
    using GenerateMines_mine_iff[OF wf il] by simp
  moreover have "m_width (GenerateMines SampleVector x y s) = m_width s"
    using GenerateMines_recontent(1)[OF wf] by (simp add: recontent_def)
  ultimately show "tileContent (tile_xy (GenerateMines SampleVector x y s) x' y') \<noteq> MINE"
    by (simp add: tile_xy_def i_def)
qed

theorem first_click_block_safe_witness:
  "wf_field field_4x3 \<and> 1 < m_width field_4x3 \<and> 1 < m_height field_4x3 \<and>
   SampleVector_contract SampleVector_first \<and> no_mines field_4x3 \<and>
   9 \<le> m_cTiles field_4x3 - m_cMines field_4x3 \<and> exclusion_radius field_4x3 = 1 \<and>
   tileContent (tile_xy (GenerateMines SampleVector_first 1 1 field_4x3) 0 0) \<noteq> MINE \<and>
   tileContent (tile_xy (GenerateMines SampleVector_first 1 1 field_4x3) 2 2) \<noteq> MINE"
proof -
  have x: "1 < m_width field_4x3" and y: "1 < m_height field_4x3"
    and big: "9 \<le> m_cTiles field_4x3 - m_cMines field_4x3"
    by (simp_all add: field_4x3_wf)
  note t = first_click_block_safe[OF field_4x3_wf(1) x y SampleVector_first_contract field_4x3_wf(2)]
  have r: "exclusion_radius field_4x3 = 1" using t big by simp
  have safe: "tileContent (tile_xy (GenerateMines SampleVector_first 1 1 field_4x3) x' y') \<noteq> MINE"
    if "x' < m_width field_4x3 \<and> y' < m_height field_4x3 \<and> x' \<le> 1 + 1 \<and> 1 \<le> x' + 1 \<and>
        y' \<le> 1 + 1 \<and> 1 \<le> y' + 1" for x' y'
    using t big that by blast
  have "tileContent (tile_xy (GenerateMines SampleVector_first 1 1 field_4x3) 0 0) \<noteq> MINE"
    "tileContent (tile_xy (GenerateMines SampleVector_first 1 1 field_4x3) 2 2) \<noteq> MINE"
    by (rule safe, simp add: field_4x3_wf)+
  then show ?thesis
    using field_4x3_wf(1,2) x y big r SampleVector_first_contract by simp
qed

section \<open>A field of mines only (C3, C4)\<close>

lemma field_1x1_ctor:
  "1 \<le> cMines \<Longrightarrow> MinefieldWindow_ctor 1 1 cMines False False (0, 0) = field_1x1"
  by (simp add: MinefieldWindow_ctor_def field_1x1_def u32_def Let_def tile_def MineTile_default_def)

lemma field_1x1_grid:
  "exclusion_radius field_1x1 = 0" "GetTileGrid field_1x1 0 0 0 = [0]"
  "GetTileGrid field_1x1 0 0 1 = [0]" "GenerateMines_candidates field_1x1 0 0 = []"
  by (simp_all add: field_1x1_def eval_defs)

lemma field_1x1_GenerateMines:
  assumes "draws_from_candidates SampleVector"
  shows "GenerateMines SampleVector 0 0 field_1x1 = field_1x1"
proof -
  have "set (SampleVector [] 1) \<subseteq> set []" using assms unfolding draws_from_candidates_def by blast
  then have e: "SampleVector [] (Suc 0) = []" by simp
  have m: "m_cMines field_1x1 = Suc 0" by (simp add: field_1x1_def)
  have n: "GenerateNumbers field_1x1 = field_1x1"
    by (simp add: field_1x1_def eval_defs)
  show ?thesis
    by (simp add: GenerateMines_def field_1x1_grid(4) m e n)
qed

lemma field_1x1_reveal:
  "SetTileRevealed 0 0 field_1x1 =
     field_1x1\<lparr>m_cRevealedTiles := 1, m_aMineTiles := [tile EMPTY REVEALED NONE]\<rparr>"
  by (simp add: field_1x1_def eval_defs while_unfold)

text \<open>
  Claim C3 says that exactly \<^verbatim>\<open>m_cMines\<close> tiles are mines after \<^verbatim>\<open>GenerateMines\<close>, for
  every valid configuration. \<open>GenerateMines_count_mines\<close> shows it for fewer mines than
  tiles. The code at the configuration it misses, one tile and one mine (the
  constructor clamps \<^verbatim>\<open>m_cMines\<close> to \<^verbatim>\<open>m_cTiles\<close>, not below): the clicked tile is
  excluded, no candidate is left, and after any draw from the candidates the field
  holds no mine while \<^verbatim>\<open>m_cMines\<close> is 1.
\<close>

theorem all_mines_field_gets_no_mine:
  assumes "draws_from_candidates SampleVector"
  shows "m_cMines field_1x1 = m_cTiles field_1x1 \<and> m_cMines field_1x1 = 1 \<and>
         GenerateMines_candidates field_1x1 0 0 = [] \<and>
         count_mines (GenerateMines SampleVector 0 0 field_1x1) = 0"
  using field_1x1_GenerateMines[OF assms] field_1x1_grid(4)
  by (simp add: count_mines_def) (simp add: field_1x1_def tile_def)

theorem all_mines_field_gets_no_mine_witness:
  "draws_from_candidates SampleVector_first \<and> m_cMines field_1x1 = 1 \<and>
   count_mines (GenerateMines SampleVector_first 0 0 field_1x1) = 0"
  using all_mines_field_gets_no_mine[of SampleVector_first] SampleVector_first_draws
  by simp

text \<open>
  Claim C4 says that on the field of one tile with one requested mine the tile becomes
  a \<^verbatim>\<open>MINE\<close> and revealing it loses the game. The code on that field: \<^verbatim>\<open>m_cMines\<close> is
  1 and the exclusion radius is 0, but the grid of radius 0 is the clicked tile
  itself, so the candidates are empty; after any draw from the candidates the tile is
  no \<^verbatim>\<open>MINE\<close> and revealing it does not set \<^verbatim>\<open>m_bGameLost\<close>.
\<close>

theorem one_cell_field_first_click:
  assumes "draws_from_candidates SampleVector" and "1 \<le> cMines"
  defines "s \<equiv> MinefieldWindow_ctor 1 1 cMines False False (0, 0)"
  shows "m_cMines s = 1 \<and> exclusion_radius s = 0 \<and>
         GetTileGrid s 0 0 (exclusion_radius s) = [0] \<and>
         GenerateMines_candidates s 0 0 = [] \<and>
         tileContent (tile_xy (GenerateMines SampleVector 0 0 s) 0 0) \<noteq> MINE \<and>
         \<not> IsGameLost (SetTileRevealed 0 0 (GenerateMines SampleVector 0 0 s))"
proof -
  have s: "s = field_1x1" unfolding s_def by (rule field_1x1_ctor[OF assms(2)])
  have g: "GenerateMines SampleVector 0 0 field_1x1 = field_1x1"
    by (rule field_1x1_GenerateMines[OF assms(1)])
  have a: "m_cMines field_1x1 = 1" "tileContent (tile_xy field_1x1 0 0) \<noteq> MINE"
    by (simp_all add: field_1x1_def tile_xy_def tile_at_def tile_def)
  have b: "\<not> IsGameLost (SetTileRevealed 0 0 field_1x1)"
    by (simp add: field_1x1_reveal IsGameLost_def) (simp add: field_1x1_def)
  show ?thesis unfolding s g using a b field_1x1_grid by simp
qed

theorem one_cell_field_first_click_witness:
  "draws_from_candidates SampleVector_first \<and> (1 :: nat) \<le> 1 \<and>
   m_cMines (MinefieldWindow_ctor 1 1 1 False False (0, 0)) = 1 \<and>
   GenerateMines_candidates (MinefieldWindow_ctor 1 1 1 False False (0, 0)) 0 0 = [] \<and>
   tileContent (tile_xy (GenerateMines SampleVector_first 0 0
      (MinefieldWindow_ctor 1 1 1 False False (0, 0))) 0 0) \<noteq> MINE \<and>
   \<not> IsGameLost (SetTileRevealed 0 0 (GenerateMines SampleVector_first 0 0
      (MinefieldWindow_ctor 1 1 1 False False (0, 0))))"
  using one_cell_field_first_click[of SampleVector_first 1] SampleVector_first_draws
  by simp

text \<open>
  The same run with the Randomizer that draws the first candidates: the tile stays
  \<^verbatim>\<open>EMPTY\<close>, the game is not lost and \<^verbatim>\<open>IsGameWon\<close> holds.
\<close>

theorem one_cell_field_evaluation:
  "MinefieldWindow_ctor 1 1 1 False False (0, 0) = field_1x1 \<and>
   tileContent (tile_xy (GenerateMines SampleVector_first 0 0 field_1x1) 0 0) = EMPTY \<and>
   \<not> IsGameLost (SetTileRevealed 0 0 (GenerateMines SampleVector_first 0 0 field_1x1)) \<and>
   IsGameWon (SetTileRevealed 0 0 (GenerateMines SampleVector_first 0 0 field_1x1))"
  using field_1x1_ctor[of 1]
  by (simp add: field_1x1_GenerateMines[OF SampleVector_first_draws] field_1x1_reveal
      IsGameLost_def IsGameWon_def)
    (simp add: field_1x1_def tile_xy_def tile_at_def tile_def u32_def)

section \<open>The mines of a run\<close>

lemma same_contents_refl [simp]: "same_contents s s"
  by (simp add: same_contents_def)

lemma same_contents_trans: "same_contents a b \<Longrightarrow> same_contents b c \<Longrightarrow> same_contents a c"
  by (simp add: same_contents_def)

lemma same_contents_mines:
  assumes "same_contents s s'"
  shows "count_mines s' = count_mines s" "no_mines s' = no_mines s"
proof -
  have l: "length (m_aMineTiles s') = length (m_aMineTiles s)"
    and c: "\<forall>i < length (m_aMineTiles s). tileContent (tile_at s' i) = tileContent (tile_at s i)"
    using assms by (simp_all add: same_contents_def)
  show "count_mines s' = count_mines s"
    unfolding count_mines_def using l c by (intro filter_count_cong) (simp_all add: tile_at_def)
  show "no_mines s' = no_mines s" using l c by (simp add: no_mines_def)
qed

lemma mines_inv_same:
  assumes "mines_inv s" "same_contents s s'"
    "(m_cRevealedTiles s' = 0) = (m_cRevealedTiles s = 0)"
  shows "mines_inv s'"
proof -
  have z: "(0 < m_cRevealedTiles s') = (0 < m_cRevealedTiles s)" using assms(3) by auto
  show ?thesis
    using assms(1,2) same_contents_mines[OF assms(2)]
    unfolding mines_inv_def z assms(3) by (simp add: same_contents_def)
qed

lemma benign_same_contents: "benign s s' \<Longrightarrow> same_contents s s'"
  by (simp add: benign_def same_contents_def tile_step_ok_def)

lemma mines_inv_benign: "mines_inv s \<Longrightarrow> benign s s' \<Longrightarrow> mines_inv s'"
  by (rule mines_inv_same[OF _ benign_same_contents]) (simp_all add: benign_def)

lemma mines_inv_fresh:
  "m_cRevealedTiles s = 0 \<Longrightarrow> m_aMineTiles s = replicate n MineTile_default \<Longrightarrow> mines_inv s"
  by (simp add: mines_inv_def no_mines_def tile_at_def MineTile_default_def)

lemma mines_inv_cycle_mark: "mines_inv s \<Longrightarrow> mines_inv (cycle_mark i s)"
proof (rule mines_inv_same)
  have t: "tileContent (tile_at (SetTileMark i mk t) k) = tileContent (tile_at t k)"
    if "k < length (m_aMineTiles t)" for mk t k
    using that by (cases "k = i") (simp_all add: SetTileMark_def set_tile_def tile_at_def)
  have sc: "same_contents t (SetTileMark i mk t)" for mk t
    using t by (simp add: same_contents_def SetTileMark_def set_tile_def)
  have fl: "same_contents s (s\<lparr>m_cFlaggedTiles := v\<rparr>)" for v
    by (simp add: same_contents_def tile_at_def)
  show "same_contents s (cycle_mark i s)"
    unfolding cycle_mark_def Let_def
    by (auto split: TileMark.split intro: sc same_contents_trans[OF fl sc])
  show "(m_cRevealedTiles (cycle_mark i s) = 0) = (m_cRevealedTiles s = 0)"
    by (simp add: cycle_mark_def Let_def SetTileMark_def set_tile_def split: TileMark.split)
qed

lemma SetTileRevealed_contents:
  assumes inv: "field_inv s" and x: "x < m_width s" and y: "y < m_height s"
  shows "same_contents s (SetTileRevealed x y s)"
    "m_cRevealedTiles s \<le> m_cRevealedTiles (SetTileRevealed x y s)"
    "tileState (tile_at s (x + y * m_width s)) \<noteq> REVEALED \<Longrightarrow>
     tileMark (tile_at s (x + y * m_width s)) \<noteq> FLAG \<Longrightarrow>
     0 < m_cRevealedTiles (SetTileRevealed x y s)"
proof -
  have wf: "wf_field s" using inv by (simp add: field_inv_def)
  define i where "i = x + y * m_width s"
  define fresh where "fresh = (tileState (tile_at s i) \<noteq> REVEALED \<and> tileMark (tile_at s i) \<noteq> FLAG)"
  define lost where "lost = (m_bGameLost s \<or> (fresh \<and> tileContent (tile_at s i) = MINE))"
  from SetTileRevealed_spec[OF wf x y] obtain t where
    t: "reveals (insert i (near_empty s)) s t" "fresh \<longrightarrow> tileState (tile_at t i) = REVEALED"
      "SetTileRevealed x y s = t\<lparr>m_bGameLost := lost\<rparr>"
    unfolding i_def fresh_def lost_def by blast
  note xi = xy_index(1)[OF wf x y, folded i_def]
  have l: "length (m_aMineTiles t) = length (m_aMineTiles s)" using t(1) by (simp add: reveals_def)
  show "same_contents s (SetTileRevealed x y s)"
    using reveals_frame[OF t(1)] reveals_tile[OF t(1)] by (simp add: t(3) same_contents_def)
  note inv' = field_inv_SetTileRevealed(1)[OF inv x y]
  have c: "count_revealed s \<le> count_revealed t" using t(1) by (simp add: reveals_def)
  have r': "m_cRevealedTiles (SetTileRevealed x y s) = count_revealed t"
    using inv' by (simp add: field_inv_def t(3))
  show "m_cRevealedTiles s \<le> m_cRevealedTiles (SetTileRevealed x y s)"
    using c inv by (simp add: r' field_inv_def)
  show "0 < m_cRevealedTiles (SetTileRevealed x y s)"
    if "tileState (tile_at s (x + y * m_width s)) \<noteq> REVEALED"
      "tileMark (tile_at s (x + y * m_width s)) \<noteq> FLAG"
  proof -
    have "tileState (tile_at t i) = REVEALED" using t(2) that by (simp add: fresh_def i_def)
    then have "m_aMineTiles t ! i \<in> set (filter (\<lambda>t. tileState t = REVEALED) (m_aMineTiles t))"
      using xi l by (simp add: tile_at_def)
    then have "0 < count_revealed t" unfolding count_revealed_def by (rule length_pos_if_in_set)
    then show ?thesis by (simp add: r')
  qed
qed

lemma mines_inv_SetTileRevealed:
  assumes inv: "field_inv s" and m: "mines_inv s" and r: "0 < m_cRevealedTiles s"
    and x: "x < m_width s" and y: "y < m_height s"
  shows "mines_inv (SetTileRevealed x y s)" "0 < m_cRevealedTiles (SetTileRevealed x y s)"
proof -
  note c = SetTileRevealed_contents[OF inv x y]
  show p: "0 < m_cRevealedTiles (SetTileRevealed x y s)" using c(2) r by simp
  show "mines_inv (SetTileRevealed x y s)"
    using p r by (intro mines_inv_same[OF m c(1)]) simp
qed

lemma mines_inv_reveal_fold:
  assumes "field_inv s" "mines_inv s" "0 < m_cRevealedTiles s" "\<forall>k \<in> set g. k < length (m_aMineTiles s)"
  shows "mines_inv (fold (\<lambda>tile s1. SetTileRevealed (tile mod m_width s1) (tile div m_width s1) s1) g s)"
  using assms
proof (induction g arbitrary: s)
  case Nil
  then show ?case by simp
next
  case (Cons k g)
  have wf: "wf_field s" using Cons.prems by (simp add: field_inv_def)
  have kl: "k < length (m_aMineTiles s)" using Cons.prems by simp
  note md = mod_div_in_grid[OF wf kl]
  note st = field_inv_SetTileRevealed[OF Cons.prems(1) md(1,2)]
  note mi = mines_inv_SetTileRevealed[OF Cons.prems(1,2,3) md(1,2)]
  have "\<forall>j \<in> set g. j < length (m_aMineTiles (SetTileRevealed (k mod m_width s) (k div m_width s) s))"
    using Cons.prems st(4) by simp
  from Cons.IH[OF st(1) mi(1) mi(2) this] show ?case by simp
qed

lemma revealed_positive:
  assumes "field_inv s" "i < length (m_aMineTiles s)" "tileState (tile_at s i) = REVEALED"
  shows "0 < m_cRevealedTiles s"
proof -
  have "m_aMineTiles s ! i \<in> set (filter (\<lambda>t. tileState t = REVEALED) (m_aMineTiles s))"
    using assms(2,3) by (simp add: tile_at_def)
  then have "0 < count_revealed s" unfolding count_revealed_def by (rule length_pos_if_in_set)
  then show ?thesis using assms(1) by (simp add: field_inv_def)
qed

lemma mines_inv_EndChord:
  assumes inv: "field_inv s" and m: "mines_inv s" and x: "x < m_width s" and y: "y < m_height s"
  shows "mines_inv (EndChord x y s)"
proof -
  have wf: "wf_field s" using inv by (simp add: field_inv_def)
  have g: "\<forall>k \<in> set (GetTileGrid s x y 1). k < length (m_aMineTiles s)"
    using grid_index_in_range[OF wf] by blast
  have u: "mines_inv (fold unclick_tile (GetTileGrid s x y 1) s)"
    by (rule mines_inv_benign[OF m benign_fold[of unclick_tile, OF benign_unclick_tile]])
  have c: "mines_inv (t\<lparr>m_bChording := False\<rparr>)" if "mines_inv t" for t
    by (rule mines_inv_benign[OF that benign_flags(1)])
  have r: "mines_inv (fold (\<lambda>tile s1. SetTileRevealed (tile mod m_width s1) (tile div m_width s1) s1)
      (GetTileGrid s x y 1) s)" if "tileState (tile_xy s x y) = REVEALED"
  proof -
    have "0 < m_cRevealedTiles s"
      using that by (intro revealed_positive[OF inv xy_index(1)[OF wf x y]]) (simp add: tile_xy_def)
    then show ?thesis by (rule mines_inv_reveal_fold[OF inv m _ g])
  qed
  show ?thesis unfolding EndChord_def using u r by (auto intro!: c)
qed

lemma mines_inv_flag:
  "mines_inv s \<Longrightarrow> mines_inv (s\<lparr>m_bLRHeldAfterChord := b\<rparr>)"
  by (rule mines_inv_benign[OF _ benign_flags(2)])

lemma mines_inv_first_reveal:
  assumes inv: "field_inv s" and m: "mines_inv s" and r0: "m_cRevealedTiles s = 0"
    and x: "x < m_width s" and y: "y < m_height s"
    and cl: "tileState (tile_xy s x y) = CLICKED"
    and c: "SampleVector_contract SampleVector"
  shows "mines_inv (SetTileRevealed x y (GenerateMines SampleVector x y s))"
proof -
  define s1 where "s1 = GenerateMines SampleVector x y s"
  have wf: "wf_field s" using inv by (simp add: field_inv_def)
  have nm: "no_mines s" using m r0 by (simp add: mines_inv_def)
  note rc = GenerateMines_recontent(1)[OF wf, of SampleVector x y, folded s1_def]
  have fr: "m_width s1 = m_width s" "m_height s1 = m_height s" "m_cTiles s1 = m_cTiles s"
    "m_cMines s1 = m_cMines s" "length (m_aMineTiles s1) = length (m_aMineTiles s)"
    using rc by (simp_all add: recontent_def)
  note xi = xy_index(1)[OF wf x y]
  have inv1: "field_inv s1" unfolding s1_def by (rule field_inv_GenerateMines[OF inv r0])
  have xy1: "x < m_width s1" "y < m_height s1" using x y fr by simp_all
  have st: "tileState (tile_at s1 (x + y * m_width s1)) = CLICKED"
    using rc xi cl by (simp add: recontent_def tile_xy_def)
  have "tileMark (tile_at s1 (x + y * m_width s1)) = FLAG \<longrightarrow>
      tileState (tile_at s1 (x + y * m_width s1)) = HIDDEN"
    using inv1 xi fr by (simp add: field_inv_def flags_hidden_def)
  then have mk: "tileMark (tile_at s1 (x + y * m_width s1)) \<noteq> FLAG" using st by auto
  note sc = SetTileRevealed_contents[OF inv1 xy1]
  have pos: "0 < m_cRevealedTiles (SetTileRevealed x y s1)" using sc(3) st mk by simp
  have cm: "m_cMines s < m_cTiles s \<longrightarrow> count_mines s1 = m_cMines s"
    using GenerateMines_count_mines[OF wf x y c nm] by (simp add: s1_def)
  have "count_mines (SetTileRevealed x y s1) = count_mines s1" by (rule same_contents_mines(1)[OF sc(1)])
  moreover have "m_cMines (SetTileRevealed x y s1) = m_cMines s" "m_cTiles (SetTileRevealed x y s1) = m_cTiles s"
    using sc(1) fr by (simp_all add: same_contents_def)
  ultimately show ?thesis
    unfolding s1_def[symmetric] mines_inv_def using pos cm by simp
qed

lemma mines_inv_OnLButtonUp:
  assumes inv: "field_inv s" and m: "mines_inv s" and g: "in_grid s gridPos"
    and c: "SampleVector_contract SampleVector"
  shows "mines_inv (OnLButtonUp SampleVector wParam gridPos s)"
proof -
  obtain x y where p: "gridPos = (x, y)" by (cases gridPos)
  have xy: "x < m_width s" "y < m_height s" using g by (simp_all add: in_grid_def p)
  have a: "mines_inv ((EndChord x y s)\<lparr>m_bLRHeldAfterChord := True\<rparr>)"
    by (rule mines_inv_flag[OF mines_inv_EndChord[OF inv m xy]])
  have b: "mines_inv (SetTileRevealed x y s)" if "m_cRevealedTiles s \<noteq> 0"
    using that by (intro mines_inv_SetTileRevealed(1)[OF inv m _ xy]) simp
  have d: "mines_inv (SetTileRevealed x y (GenerateMines SampleVector x y s))"
    if "m_cRevealedTiles s = 0" "tileState (tile_xy s x y) = CLICKED"
    by (rule mines_inv_first_reveal[OF inv m that(1) xy that(2) c])
  show ?thesis
    unfolding OnLButtonUp_def p fst_conv snd_conv Let_def
    using a b d m mines_inv_flag[OF m, of False] by simp
qed

lemma mines_inv_HandleMessage:
  assumes inv: "field_inv s" and m: "mines_inv s" and g: "message_in_grid s msg"
    and c: "SampleVector_contract SampleVector"
  shows "mines_inv (HandleMessage SampleVector msg s)"
proof (cases msg)
  case (WM_LBUTTONDOWN wParam gridPos)
  then show ?thesis using mines_inv_benign[OF m benign_OnLButtonDown] by simp
next
  case (WM_LBUTTONUP wParam gridPos)
  then show ?thesis using mines_inv_OnLButtonUp[OF inv m _ c] g by (simp add: message_in_grid_def)
next
  case (WM_RBUTTONDOWN wParam gridPos)
  then show ?thesis
    using mines_inv_benign[OF m benign_BeginChord] mines_inv_cycle_mark[OF m] m
    by (simp add: OnRButtonDown_def)
next
  case (WM_RBUTTONUP wParam gridPos)
  obtain x y where p: "gridPos = (x, y)" by (cases gridPos)
  have xy: "x < m_width s" "y < m_height s"
    using g WM_RBUTTONUP by (simp_all add: message_in_grid_def in_grid_def p)
  show ?thesis
    using WM_RBUTTONUP m mines_inv_flag[OF mines_inv_EndChord[OF inv m xy]] mines_inv_flag[OF m, of False]
    by (simp add: OnRButtonUp_def p)
next
  case (WM_MBUTTONDOWN wParam gridPos)
  then show ?thesis using mines_inv_benign[OF m benign_OnMButtonDown] by simp
next
  case (WM_MBUTTONUP wParam gridPos)
  obtain x y where p: "gridPos = (x, y)" by (cases gridPos)
  have xy: "x < m_width s" "y < m_height s"
    using g WM_MBUTTONUP by (simp_all add: message_in_grid_def in_grid_def p)
  have h: "field_inv (s\<lparr>m_bLRHeldAfterChord := True\<rparr>)" "mines_inv (s\<lparr>m_bLRHeldAfterChord := True\<rparr>)"
    using field_inv_flag(1)[OF inv] mines_inv_flag[OF m] by simp_all
  have "mines_inv (EndChord x y (s\<lparr>m_bLRHeldAfterChord := True\<rparr>))"
    using xy by (intro mines_inv_EndChord[OF h]) simp_all
  then show ?thesis
    using WM_MBUTTONUP m mines_inv_EndChord[OF inv m xy]
    by (simp add: OnMButtonUp_def p Let_def)
next
  case (WM_MOUSEMOVE wParam gridPos tracked)
  then show ?thesis using mines_inv_benign[OF m benign_OnMouseMove] by simp
next
  case WM_MOUSELEAVE
  then show ?thesis using mines_inv_benign[OF m benign_OnMouseLeave] by simp
next
  case WM_OTHER
  then show ?thesis using m by simp
qed

lemma reachable_mines_inv:
  assumes c: "SampleVector_contract SampleVector"
  shows "reachable SampleVector s \<Longrightarrow> mines_inv s"
proof (induction rule: reachable.induct)
  case (reachable_ctor width height cMines chording held lastPos)
  show ?case by (rule mines_inv_fresh) (simp_all add: MinefieldWindow_ctor_def Let_def)
next
  case (reachable_Resize s width height cMines)
  show ?case
  proof (cases "m_width s \<noteq> width \<or> m_height s \<noteq> height \<or> m_cMines s \<noteq> cMines")
    case True
    then show ?thesis
      by (intro mines_inv_fresh) (simp_all add: Resize_def Let_def ResetGame_def)
  next
    case False
    then show ?thesis using reachable_Resize.IH by (simp add: Resize_def)
  qed
next
  case (reachable_ResetGame s)
  show ?case by (rule mines_inv_fresh) (simp_all add: ResetGame_def)
next
  case (reachable_ToggleQuestionMarkUsage s)
  then show ?case by (intro mines_inv_benign[OF _ benign_ToggleQuestionMarkUsage])
next
  case (reachable_HandleMessage s msg)
  then show ?case
    by (intro mines_inv_HandleMessage[OF reachable_field_inv _ _ c]) simp_all
qed



lemma reachable_before_first_reveal:
  assumes "SampleVector_contract SampleVector" "reachable SampleVector s" "m_cRevealedTiles s = 0"
  shows "wf_field s" "no_mines s"
  using reachable_field_inv[OF assms(2)] reachable_mines_inv[OF assms(1,2)] assms(3)
  by (simp_all add: field_inv_def mines_inv_def)

section \<open>The first click on a field of mines only\<close>




section \<open>Lost and won (C1)\<close>




end
